theory Spec2Isabelle
  imports Main "HOL-Library.Word" "HOL-Library.AList"
begin

unbundle bit_operations_syntax

section \<open>Data model of the schema registry decoder\<close>

text \<open>
  The development follows \<^verbatim>\<open>internal/impl/confluent/processor_schema_registry_decode.go\<close>.
  A Go \<^verbatim>\<open>byte\<close> is an 8-bit word, a \<^verbatim>\<open>uint32\<close> a 32-bit word. Go's \<^verbatim>\<open>int\<close> is taken
  at its width on a 64-bit target, so that \<^verbatim>\<open>int(u)\<close> of a \<^verbatim>\<open>uint32\<close> is a zero extension.
\<close>

type_synonym byte = "8 word"
type_synonym uint32 = "32 word"
type_synonym go_int = "64 word"

text \<open>
  A Go slice is a window on a backing array: \<open>elems\<close> are the \<^verbatim>\<open>len(b)\<close> bytes that indexing
  can reach, \<open>spare\<close> the cells of the backing array between \<^verbatim>\<open>len(b)\<close> and \<^verbatim>\<open>cap(b)\<close>, which
  only a slice expression can reach.
\<close>

record byte_slice =
  elems :: "byte list"
  spare :: "byte list"

definition slice_len :: "byte_slice \<Rightarrow> nat" where
  "slice_len b = length (elems b)"

definition slice_cap :: "byte_slice \<Rightarrow> nat" where
  "slice_cap b = length (elems b) + length (spare b)"

text \<open>
  Errors the code constructs itself, by the text of their message, and errors handed on
  from the collaborators (registry client, decoder builders, decoders, the context).
\<close>

datatype error =
    MessageIsEmpty
  | VersionNotSupported byte
  | SchemaTypeNotSupported string
  | UnableToReferenceBytes
  | Foreign string

text \<open>
  Run-time panics of Go: a slice expression \<^verbatim>\<open>b[:h]\<close> with \<open>h\<close> above the capacity,
  a slice expression \<^verbatim>\<open>b[l:h]\<close> with \<open>l\<close> above \<open>h\<close>, an index out of range, and a
  nil pointer dereference.
\<close>

datatype panic =
    SliceBoundsCap nat nat
  | SliceBounds nat nat
  | IndexOutOfRange nat nat
  | NilDereference

text \<open>
  A call ends by returning a value (\<open>Inr\<close>), by returning an error, by a panic, or not
  at all because it waits for a lock that is never released.
\<close>

datatype failure = Err error | Panic panic | Blocked

section \<open>Slices and the big-endian reader\<close>

text \<open>
  The slice expression \<^verbatim>\<open>b[lo:hi]\<close>. For a slice operand Go checks the upper index against
  the capacity, not the length, and then the lower index against the upper one.
\<close>

definition slice_expr :: "byte_slice \<Rightarrow> nat \<Rightarrow> nat \<Rightarrow> failure + byte_slice" where
  "slice_expr b lo hi =
     (if slice_cap b < hi then Inl (Panic (SliceBoundsCap hi (slice_cap b)))
      else if hi < lo then Inl (Panic (SliceBounds lo hi))
      else Inr \<lparr>elems = take (hi - lo) (drop lo (elems b @ spare b)),
                spare = drop hi (elems b @ spare b)\<rparr>)"

text \<open>\<^verbatim>\<open>b[lo:]\<close>: the upper index defaults to \<^verbatim>\<open>len(b)\<close>.\<close>

definition slice_from :: "byte_slice \<Rightarrow> nat \<Rightarrow> failure + byte_slice" where
  "slice_from b lo = slice_expr b lo (slice_len b)"

text \<open>
  \<^verbatim>\<open>binary.BigEndian.Uint32\<close> of the standard library: it touches \<^verbatim>\<open>b[3]\<close> first and then
  assembles \<^verbatim>\<open>uint32(b[3]) | uint32(b[2])<<8 | uint32(b[1])<<16 | uint32(b[0])<<24\<close>.
\<close>

definition be32 :: "byte \<Rightarrow> byte \<Rightarrow> byte \<Rightarrow> byte \<Rightarrow> uint32" where
  "be32 b0 b1 b2 b3 =
     ucast b3 OR push_bit 8 (ucast b2) OR push_bit 16 (ucast b1) OR push_bit 24 (ucast b0)"

definition Uint32 :: "byte_slice \<Rightarrow> failure + uint32" where
  "Uint32 b =
     (if slice_len b \<le> 3 then Inl (Panic (IndexOutOfRange 3 (slice_len b)))
      else Inr (be32 (elems b ! 0) (elems b ! 1) (elems b ! 2) (elems b ! 3)))"

section \<open>Identifier codec: extractID\<close>

text \<open>
  \<^verbatim>\<open>extractID\<close> returns early with an error for an empty message and for a first byte other
  than zero; otherwise it converts \<^verbatim>\<open>b[1:5]\<close> and hands back \<^verbatim>\<open>b[5:]\<close>. With an error Go
  returns the zero values of \<open>id\<close> and \<open>remaining\<close> beside it; the model returns the error
  alone.
\<close>

definition extractID :: "byte_slice \<Rightarrow> failure + (go_int \<times> byte_slice)" where
  "extractID b =
     (if slice_len b = 0 then Inl (Err MessageIsEmpty)
      else if elems b ! 0 \<noteq> 0 then Inl (Err (VersionNotSupported (elems b ! 0)))
      else (case slice_expr b 1 5 of
              Inl f \<Rightarrow> Inl f
            | Inr prefix \<Rightarrow>
                (case Uint32 prefix of
                   Inl f \<Rightarrow> Inl f
                 | Inr u \<Rightarrow>
                     (case slice_from b 5 of
                        Inl f \<Rightarrow> Inl f
                      | Inr remaining \<Rightarrow> Inr (ucast u, remaining)))))"

text \<open>
  The synthetic encoder of the round-trip property, written from the wire format of the
  specification: byte \<open>0x00\<close>, the identifier as four bytes, most significant first, then
  the payload.
\<close>

definition encode_envelope :: "uint32 \<Rightarrow> byte list \<Rightarrow> byte list" where
  "encode_envelope i payload =
     [0, ucast (drop_bit 24 i), ucast (drop_bit 16 i), ucast (drop_bit 8 i), ucast i] @ payload"

section \<open>Time\<close>

text \<open>
  A \<^verbatim>\<open>time.Time\<close> is read as the count of nanoseconds since the Unix epoch and a
  \<^verbatim>\<open>time.Duration\<close> as a count of nanoseconds; \<^verbatim>\<open>Unix()\<close> is the count of whole seconds,
  rounded down. The field \<^verbatim>\<open>lastUsedUnixSeconds\<close> is an \<^verbatim>\<open>int64\<close> in the source and an
  unbounded integer here: Unix seconds stay far from its range.
\<close>

type_synonym time = int
type_synonym duration = int

definition Second :: duration where
  "Second = 1000000000"

definition Minute :: duration where
  "Minute = 60 * Second"

definition Unix :: "time \<Rightarrow> int" where
  "Unix t = t div Second"

definition Add :: "time \<Rightarrow> duration \<Rightarrow> time" where
  "Add t d = t + d"

definition schemaStaleAfter :: duration where
  "schemaStaleAfter = Minute * 10"

definition schemaCachePurgePeriod :: duration where
  "schemaCachePurgePeriod = Minute"

section \<open>Locks\<close>

text \<open>
  \<^verbatim>\<open>sync.RWMutex\<close> and \<^verbatim>\<open>sync.Mutex\<close> as the calls of one goroutine see them: an
  acquisition that cannot be granted is \<open>None\<close>, and the caller waits.
\<close>

record RWMutex =
  readers :: nat
  writer :: bool

definition RLock :: "RWMutex \<Rightarrow> RWMutex option" where
  "RLock m = (if writer m then None else Some (m\<lparr>readers := Suc (readers m)\<rparr>))"

definition RUnlock :: "RWMutex \<Rightarrow> RWMutex" where
  "RUnlock m = m\<lparr>readers := readers m - 1\<rparr>"

definition Lock :: "RWMutex \<Rightarrow> RWMutex option" where
  "Lock m = (if writer m \<or> 0 < readers m then None else Some (m\<lparr>writer := True\<rparr>))"

definition Unlock :: "RWMutex \<Rightarrow> RWMutex" where
  "Unlock m = m\<lparr>writer := False\<rparr>"

type_synonym Mutex = bool

definition MLock :: "Mutex \<Rightarrow> Mutex option" where
  "MLock held = (if held then None else Some True)"

definition MUnlock :: "Mutex \<Rightarrow> Mutex" where
  "MUnlock held = False"

section \<open>Messages, decoders and the registry\<close>

text \<open>
  Modelled from the spec: the host pipeline's message type (\<^verbatim>\<open>service.Message\<close>) is not
  among the sources. A message carries a byte payload, which may be unavailable, and a
  decoded document. \<open>AsBytes\<close> extracts the byte representation or fails; \<open>SetBytes\<close>
  replaces the byte payload.
\<close>

record 'doc message =
  rawBytes :: "byte_slice option"
  structured :: "'doc option"

definition AsBytes :: "'doc message \<Rightarrow> error + byte_slice" where
  "AsBytes m = (case rawBytes m of None \<Rightarrow> Inl (Foreign ''no byte representation'')
                | Some b \<Rightarrow> Inr b)"

definition SetBytes :: "'doc message \<Rightarrow> byte_slice \<Rightarrow> 'doc message" where
  "SetBytes m b = m\<lparr>rawBytes := Some b\<rparr>"

text \<open>
  \<^verbatim>\<open>type schemaDecoder func(m *service.Message) error\<close>: a decoder works on the message in
  place, so the model hands back the message as the decoder left it, beside the error.
\<close>

type_synonym 'doc schemaDecoder = "'doc message \<Rightarrow> 'doc message \<times> error option"

record 'doc cachedSchemaDecoder =
  lastUsedUnixSeconds :: int
  decoder :: "'doc schemaDecoder"

text \<open>
  The registry client and the two decoder builders are collaborators whose code is not
  among the sources; they are parameters of the model. Of the registry's answer the code
  reads the field \<^verbatim>\<open>Type\<close> only.
\<close>

record SchemaInfo =
  Type :: string
  Schema :: string

record 'doc registry =
  GetSchemaByID :: "go_int \<Rightarrow> error + SchemaInfo"
  getProtobufDecoder :: "SchemaInfo \<Rightarrow> error + 'doc schemaDecoder"
  getAvroDecoder :: "SchemaInfo \<Rightarrow> error + 'doc schemaDecoder"

text \<open>
  Modelled from the spec: the shutdown signaller (\<^verbatim>\<open>shutdown.Signaller\<close>) is not among the
  sources. Raising the signal is idempotent.
\<close>

record Signaller =
  raised :: bool

definition CloseNow :: "Signaller \<Rightarrow> Signaller" where
  "CloseNow sig = sig\<lparr>raised := True\<rparr>"

section \<open>The decoder and its cache\<close>

text \<open>
  \<^verbatim>\<open>schemas\<close> is a Go map: an association list whose keys are distinct, in some order of
  iteration. \<open>requests\<close> is not a field of the source: it logs, oldest first, the
  identifiers for which the registry client was called.
\<close>

record 'doc schemaRegistryDecoder =
  schemas :: "(go_int \<times> 'doc cachedSchemaDecoder) list"
  cacheMut :: RWMutex
  requestMut :: Mutex
  shutSig :: Signaller
  requests :: "go_int list"

text \<open>\<^verbatim>\<open>s.cacheMut.RLock(); c, ok := s.schemas[id]; s.cacheMut.RUnlock()\<close>\<close>

definition lookup ::
  "go_int \<Rightarrow> 'doc schemaRegistryDecoder \<Rightarrow>
     (failure + 'doc cachedSchemaDecoder option) \<times> 'doc schemaRegistryDecoder" where
  "lookup ident s =
     (case RLock (cacheMut s) of
        None \<Rightarrow> (Inl Blocked, s)
      | Some m \<Rightarrow> (Inr (map_of (schemas s) ident), s\<lparr>cacheMut := RUnlock m\<rparr>))"

text \<open>
  \<^verbatim>\<open>atomic.StoreInt64(&c.lastUsedUnixSeconds, time.Now().Unix())\<close>, for the entry \<open>c\<close>
  that the map holds under \<open>ident\<close>.
\<close>

definition refresh ::
  "go_int \<Rightarrow> time \<Rightarrow> 'doc schemaRegistryDecoder \<Rightarrow> 'doc schemaRegistryDecoder" where
  "refresh ident now s =
     s\<lparr>schemas := map (\<lambda>(k, c). if k = ident then (k, c\<lparr>lastUsedUnixSeconds := Unix now\<rparr>)
                                 else (k, c)) (schemas s)\<rparr>"

text \<open>\<^verbatim>\<open>s.client.GetSchemaByID(ctx, id)\<close>, with the call logged.\<close>

definition fetch ::
  "'doc registry \<Rightarrow> go_int \<Rightarrow> 'doc schemaRegistryDecoder \<Rightarrow>
     (error + SchemaInfo) \<times> 'doc schemaRegistryDecoder" where
  "fetch reg ident s = (GetSchemaByID reg ident, s\<lparr>requests := requests s @ [ident]\<rparr>)"

text \<open>The \<^verbatim>\<open>switch resPayload.Type\<close> of \<^verbatim>\<open>getDecoder\<close>.\<close>

definition build :: "'doc registry \<Rightarrow> SchemaInfo \<Rightarrow> error + 'doc schemaDecoder" where
  "build reg resPayload =
     (if Type resPayload = ''PROTOBUF'' then getProtobufDecoder reg resPayload
      else if Type resPayload = [] \<or> Type resPayload = ''AVRO''
        then getAvroDecoder reg resPayload
      else Inl (SchemaTypeNotSupported (Type resPayload)))"

text \<open>
  \<^verbatim>\<open>s.cacheMut.Lock(); s.schemas[id] = &cachedSchemaDecoder{...}; s.cacheMut.Unlock()\<close>
\<close>

definition insert_decoder ::
  "go_int \<Rightarrow> time \<Rightarrow> 'doc schemaDecoder \<Rightarrow> 'doc schemaRegistryDecoder \<Rightarrow>
     (failure + unit) \<times> 'doc schemaRegistryDecoder" where
  "insert_decoder ident now dec s =
     (case Lock (cacheMut s) of
        None \<Rightarrow> (Inl Blocked, s)
      | Some m \<Rightarrow>
          (Inr (),
           s\<lparr>schemas := AList.update ident
                  \<lparr>lastUsedUnixSeconds = Unix now, decoder = dec\<rparr> (schemas s),
             cacheMut := Unlock m\<rparr>))"

text \<open>
  The part of \<^verbatim>\<open>getDecoder\<close> that runs while \<^verbatim>\<open>requestMut\<close> is held: the second lookup,
  and on a confirmed miss the request, the choice of the builder and the insertion.
\<close>

definition getDecoder_locked ::
  "'doc registry \<Rightarrow> time \<Rightarrow> go_int \<Rightarrow> 'doc schemaRegistryDecoder \<Rightarrow>
     (failure + 'doc schemaDecoder) \<times> 'doc schemaRegistryDecoder" where
  "getDecoder_locked reg now ident s =
     (case lookup ident s of
        (Inl f, s1) \<Rightarrow> (Inl f, s1)
      | (Inr (Some c), s1) \<Rightarrow> (Inr (decoder c), refresh ident now s1)
      | (Inr None, s1) \<Rightarrow>
          (case fetch reg ident s1 of
             (Inl e, s2) \<Rightarrow> (Inl (Err e), s2)
           | (Inr resPayload, s2) \<Rightarrow>
               (case build reg resPayload of
                  Inl e \<Rightarrow> (Inl (Err e), s2)
                | Inr dec \<Rightarrow>
                    (case insert_decoder ident now dec s2 of
                       (Inl f, s3) \<Rightarrow> (Inl f, s3)
                     | (Inr u, s3) \<Rightarrow> (Inr dec, s3)))))"

text \<open>
  \<^verbatim>\<open>getDecoder\<close>: the first lookup; on a miss \<^verbatim>\<open>requestMut.Lock()\<close> and the locked part,
  after which the deferred \<^verbatim>\<open>requestMut.Unlock()\<close> runs, unless the call is still waiting.
\<close>

definition getDecoder ::
  "'doc registry \<Rightarrow> time \<Rightarrow> go_int \<Rightarrow> 'doc schemaRegistryDecoder \<Rightarrow>
     (failure + 'doc schemaDecoder) \<times> 'doc schemaRegistryDecoder" where
  "getDecoder reg now ident s =
     (case lookup ident s of
        (Inl f, s1) \<Rightarrow> (Inl f, s1)
      | (Inr (Some c), s1) \<Rightarrow> (Inr (decoder c), refresh ident now s1)
      | (Inr None, s1) \<Rightarrow>
          (case MLock (requestMut s1) of
             None \<Rightarrow> (Inl Blocked, s1)
           | Some g \<Rightarrow>
               (case getDecoder_locked reg now ident (s1\<lparr>requestMut := g\<rparr>) of
                  (Inl Blocked, s2) \<Rightarrow> (Inl Blocked, s2)
                | (r, s2) \<Rightarrow> (r, s2\<lparr>requestMut := MUnlock (requestMut s2)\<rparr>))))"

section \<open>Decode orchestrator: Process\<close>

text \<open>
  \<^verbatim>\<open>Process\<close> returns the batch or the error; the message is a pointer that the call may
  have written through, so the model returns the message as the call left it, too.
\<close>

definition Process ::
  "'doc registry \<Rightarrow> time \<Rightarrow> 'doc message \<Rightarrow> 'doc schemaRegistryDecoder \<Rightarrow>
     (failure + 'doc message list) \<times> 'doc message \<times> 'doc schemaRegistryDecoder" where
  "Process reg now msg s =
     (case AsBytes msg of
        Inl e \<Rightarrow> (Inl (Err UnableToReferenceBytes), msg, s)
      | Inr b \<Rightarrow>
          (case extractID b of
             Inl f \<Rightarrow> (Inl f, msg, s)
           | Inr (ident, remaining) \<Rightarrow>
               (case getDecoder reg now ident s of
                  (Inl f, s1) \<Rightarrow> (Inl f, msg, s1)
                | (Inr dec, s1) \<Rightarrow>
                    (case dec (SetBytes msg remaining) of
                       (msg1, Some e) \<Rightarrow> (Inl (Err e), msg1, s1)
                     | (msg1, None) \<Rightarrow> (Inr [msg1], msg1, s1)))))"

section \<open>Lifecycle: Close\<close>

text \<open>\<^verbatim>\<open>for k := range s.schemas { delete(s.schemas, k) }\<close>\<close>

fun delete_keys :: "'k list \<Rightarrow> ('k \<times> 'v) list \<Rightarrow> ('k \<times> 'v) list" where
  "delete_keys [] al = al"
| "delete_keys (k # ks) al = delete_keys ks (AList.delete k al)"

text \<open>
  \<open>ctx_err\<close> is what \<^verbatim>\<open>ctx.Err()\<close> answers once the lock is held: \<open>None\<close> while the
  context is live. The deferred \<^verbatim>\<open>cacheMut.Unlock()\<close> runs on both returns.
\<close>

definition Close ::
  "error option \<Rightarrow> 'doc schemaRegistryDecoder \<Rightarrow>
     (failure + unit) \<times> 'doc schemaRegistryDecoder" where
  "Close ctx_err s =
     (let s1 = s\<lparr>shutSig := CloseNow (shutSig s)\<rparr> in
      case Lock (cacheMut s1) of
        None \<Rightarrow> (Inl Blocked, s1)
      | Some m \<Rightarrow>
          (case ctx_err of
             Some e \<Rightarrow> (Inl (Err e), s1\<lparr>cacheMut := Unlock m\<rparr>)
           | None \<Rightarrow>
               (Inr (),
                s1\<lparr>schemas := delete_keys (map fst (schemas s1)) (schemas s1),
                   cacheMut := Unlock m\<rparr>)))"

section \<open>Eviction: clearExpired\<close>

definition targetTime :: "time \<Rightarrow> int" where
  "targetTime now = Unix (Add now (- schemaStaleAfter))"

text \<open>The first loop: the keys of the entries last used before the target time.\<close>

fun gather ::
  "int \<Rightarrow> (go_int \<times> 'doc cachedSchemaDecoder) list \<Rightarrow> go_int list \<Rightarrow> go_int list" where
  "gather t [] targets = targets"
| "gather t ((k, v) # kvs) targets =
     gather t kvs (if lastUsedUnixSeconds v < t then targets @ [k] else targets)"

text \<open>
  The second loop: each target is looked up again. \<^verbatim>\<open>s.schemas[k]\<close> is the nil pointer for
  a key that is no longer in the map, and reading its field panics.
\<close>

fun remove_stale ::
  "int \<Rightarrow> go_int list \<Rightarrow> (go_int \<times> 'doc cachedSchemaDecoder) list \<Rightarrow>
     failure + (go_int \<times> 'doc cachedSchemaDecoder) list" where
  "remove_stale t [] al = Inr al"
| "remove_stale t (k # ks) al =
     (case map_of al k of
        None \<Rightarrow> Inl (Panic NilDereference)
      | Some c \<Rightarrow>
          if lastUsedUnixSeconds c < t then remove_stale t ks (AList.delete k al)
          else remove_stale t ks al)"

text \<open>The first pass, under the read lock.\<close>

definition clearExpired_scan ::
  "time \<Rightarrow> 'doc schemaRegistryDecoder \<Rightarrow>
     (failure + int \<times> go_int list) \<times> 'doc schemaRegistryDecoder" where
  "clearExpired_scan now s =
     (case RLock (cacheMut s) of
        None \<Rightarrow> (Inl Blocked, s)
      | Some m \<Rightarrow>
          (Inr (targetTime now, gather (targetTime now) (schemas s) []),
           s\<lparr>cacheMut := RUnlock m\<rparr>))"

text \<open>The second pass, under the write lock, entered only with a target.\<close>

definition clearExpired_sweep ::
  "int \<Rightarrow> go_int list \<Rightarrow> 'doc schemaRegistryDecoder \<Rightarrow>
     (failure + unit) \<times> 'doc schemaRegistryDecoder" where
  "clearExpired_sweep t targets s =
     (if length targets > 0 then
        (case Lock (cacheMut s) of
           None \<Rightarrow> (Inl Blocked, s)
         | Some m \<Rightarrow>
             (case remove_stale t targets (schemas s) of
                Inl f \<Rightarrow> (Inl f, s\<lparr>cacheMut := m\<rparr>)
              | Inr al \<Rightarrow> (Inr (), s\<lparr>schemas := al, cacheMut := Unlock m\<rparr>)))
      else (Inr (), s))"

text \<open>\<^verbatim>\<open>clearExpired\<close> with nothing running between its two passes.\<close>

definition clearExpired ::
  "time \<Rightarrow> 'doc schemaRegistryDecoder \<Rightarrow>
     (failure + unit) \<times> 'doc schemaRegistryDecoder" where
  "clearExpired now s =
     (case clearExpired_scan now s of
        (Inl f, s1) \<Rightarrow> (Inl f, s1)
      | (Inr (t, targets), s1) \<Rightarrow> clearExpired_sweep t targets s1)"

text \<open>No goroutine holds a lock of the decoder.\<close>

definition quiescent :: "'doc schemaRegistryDecoder \<Rightarrow> bool" where
  "quiescent s \<longleftrightarrow> \<not> writer (cacheMut s) \<and> readers (cacheMut s) = 0 \<and> \<not> requestMut s"

section \<open>Concurrent callers of getDecoder\<close>

text \<open>
  For the behaviour under concurrency a call of \<^verbatim>\<open>getDecoder\<close> is cut at its synchronisation
  points. A step of a caller is one region under \<^verbatim>\<open>cacheMut\<close>, one atomic store, one
  acquisition or release of \<^verbatim>\<open>requestMut\<close>, the registry request, or the choice and run of
  the builder; the steps are the functions that \<open>getDecoder\<close> above is composed of. A
  caller stands before its first lookup (\<open>Start\<close>), after a hit of the first lookup with
  the entry in hand (\<open>Hit1\<close>), at \<^verbatim>\<open>requestMut.Lock()\<close> (\<open>WaitGate\<close>), before the second lookup
  (\<open>Recheck\<close>), after a hit of the second lookup (\<open>Hit2\<close>), before the request
  (\<open>Fetch\<close>), before the builder (\<open>Build\<close>), before the insertion (\<open>Insert\<close>), before the
  deferred \<^verbatim>\<open>requestMut.Unlock()\<close> with its result fixed (\<open>Release\<close>), or it has returned
  (\<open>Done\<close>).
\<close>

datatype 'doc pc =
    Start
  | Hit1 "'doc cachedSchemaDecoder"
  | WaitGate
  | Recheck
  | Hit2 "'doc cachedSchemaDecoder"
  | Fetch
  | Build SchemaInfo
  | Insert "'doc schemaDecoder"
  | Release "failure + 'doc schemaDecoder"
  | Done "failure + 'doc schemaDecoder"

text \<open>One step of a caller; \<open>None\<close> when the caller waits for a lock or has returned.\<close>

fun advance ::
  "'doc registry \<Rightarrow> time \<Rightarrow> go_int \<Rightarrow> 'doc pc \<Rightarrow> 'doc schemaRegistryDecoder \<Rightarrow>
     ('doc pc \<times> 'doc schemaRegistryDecoder) option" where
  "advance reg now ident Start s =
     (case lookup ident s of
        (Inl f, s1) \<Rightarrow> None
      | (Inr (Some c), s1) \<Rightarrow> Some (Hit1 c, s1)
      | (Inr None, s1) \<Rightarrow> Some (WaitGate, s1))"
| "advance reg now ident (Hit1 c) s = Some (Done (Inr (decoder c)), refresh ident now s)"
| "advance reg now ident WaitGate s =
     (case MLock (requestMut s) of
        None \<Rightarrow> None
      | Some g \<Rightarrow> Some (Recheck, s\<lparr>requestMut := g\<rparr>))"
| "advance reg now ident Recheck s =
     (case lookup ident s of
        (Inl f, s1) \<Rightarrow> None
      | (Inr (Some c), s1) \<Rightarrow> Some (Hit2 c, s1)
      | (Inr None, s1) \<Rightarrow> Some (Fetch, s1))"
| "advance reg now ident (Hit2 c) s = Some (Release (Inr (decoder c)), refresh ident now s)"
| "advance reg now ident Fetch s =
     (case fetch reg ident s of
        (Inl e, s2) \<Rightarrow> Some (Release (Inl (Err e)), s2)
      | (Inr resPayload, s2) \<Rightarrow> Some (Build resPayload, s2))"
| "advance reg now ident (Build resPayload) s =
     (case build reg resPayload of
        Inl e \<Rightarrow> Some (Release (Inl (Err e)), s)
      | Inr dec \<Rightarrow> Some (Insert dec, s))"
| "advance reg now ident (Insert dec) s =
     (case insert_decoder ident now dec s of
        (Inl f, s3) \<Rightarrow> None
      | (Inr u, s3) \<Rightarrow> Some (Release (Inr dec), s3))"
| "advance reg now ident (Release r) s = Some (Done r, s\<lparr>requestMut := MUnlock (requestMut s)\<rparr>)"
| "advance reg now ident (Done r) s = None"

text \<open>
  A configuration is the decoder with its callers, each with the identifier it asks for.
  A schedule names, step by step, the caller that moves and the time it reads; \<open>run\<close>
  follows a schedule and is \<open>None\<close> if the schedule names a caller that cannot move.
  The schedules are all the interleavings of the callers.
\<close>

type_synonym 'doc config = "'doc schemaRegistryDecoder \<times> (go_int \<times> 'doc pc) list"

definition exec ::
  "'doc registry \<Rightarrow> nat \<times> time \<Rightarrow> 'doc config \<Rightarrow> 'doc config option" where
  "exec reg a cfg =
     (case (a, cfg) of
        ((i, now), (s, cs)) \<Rightarrow>
          if i < length cs then
            (case advance reg now (fst (cs ! i)) (snd (cs ! i)) s of
               None \<Rightarrow> None
             | Some (pc', s') \<Rightarrow> Some (s', cs[i := (fst (cs ! i), pc')]))
          else None)"

fun run :: "'doc registry \<Rightarrow> (nat \<times> time) list \<Rightarrow> 'doc config \<Rightarrow> 'doc config option" where
  "run reg [] cfg = Some cfg"
| "run reg (a # as) cfg =
     (case exec reg a cfg of None \<Rightarrow> None | Some cfg' \<Rightarrow> run reg as cfg')"

text \<open>
  The steps during which a caller holds \<^verbatim>\<open>requestMut\<close>, those between the request and the
  insertion, and the end of a call.
\<close>

fun holds_gate :: "'doc pc \<Rightarrow> bool" where
  "holds_gate Recheck = True"
| "holds_gate (Hit2 c) = True"
| "holds_gate Fetch = True"
| "holds_gate (Build p) = True"
| "holds_gate (Insert d) = True"
| "holds_gate (Release r) = True"
| "holds_gate pc = False"

fun past_fetch :: "'doc pc \<Rightarrow> bool" where
  "past_fetch (Build p) = True"
| "past_fetch (Insert d) = True"
| "past_fetch pc = False"

fun finished :: "'doc pc \<Rightarrow> bool" where
  "finished (Done r) = True"
| "finished pc = False"

text \<open>
  What holds at each point of a caller for an identifier that the registry resolves to
  the payload \<open>p\<close> and the decoder \<open>dec\<close>, given whether the cache has the identifier.
\<close>

fun local_ok :: "SchemaInfo \<Rightarrow> 'doc schemaDecoder \<Rightarrow> bool \<Rightarrow> 'doc pc \<Rightarrow> bool" where
  "local_ok p dec cached Start = True"
| "local_ok p dec cached WaitGate = True"
| "local_ok p dec cached Recheck = True"
| "local_ok p dec cached (Hit1 c) = (decoder c = dec \<and> cached)"
| "local_ok p dec cached (Hit2 c) = (decoder c = dec \<and> cached)"
| "local_ok p dec cached Fetch = (\<not> cached)"
| "local_ok p dec cached (Build p') = (p' = p \<and> \<not> cached)"
| "local_ok p dec cached (Insert d) = (d = dec \<and> \<not> cached)"
| "local_ok p dec cached (Release r) = (r = Inr dec \<and> cached)"
| "local_ok p dec cached (Done r) = (r = Inr dec \<and> cached)"

text \<open>The invariant of the configurations, in parts.\<close>

definition gate_unique :: "(go_int \<times> 'doc pc) list \<Rightarrow> bool" where
  "gate_unique cs \<longleftrightarrow>
     (\<forall>i<length cs. \<forall>j<length cs.
        holds_gate (snd (cs ! i)) \<and> holds_gate (snd (cs ! j)) \<longrightarrow> i = j)"

definition gate_held :: "(go_int \<times> 'doc pc) list \<Rightarrow> bool" where
  "gate_held cs \<longleftrightarrow> (\<exists>i<length cs. holds_gate (snd (cs ! i)))"

definition in_flight :: "go_int \<Rightarrow> (go_int \<times> 'doc pc) list \<Rightarrow> bool" where
  "in_flight ident cs \<longleftrightarrow> (\<exists>i<length cs. fst (cs ! i) = ident \<and> past_fetch (snd (cs ! i)))"

definition callers_ok ::
  "go_int \<Rightarrow> SchemaInfo \<Rightarrow> 'doc schemaDecoder \<Rightarrow> bool \<Rightarrow> (go_int \<times> 'doc pc) list \<Rightarrow> bool" where
  "callers_ok ident p dec cached cs \<longleftrightarrow>
     (\<forall>i<length cs. fst (cs ! i) = ident \<longrightarrow> local_ok p dec cached (snd (cs ! i)))"

definition sf_inv ::
  "go_int \<Rightarrow> SchemaInfo \<Rightarrow> 'doc schemaDecoder \<Rightarrow> nat \<Rightarrow> 'doc config \<Rightarrow> bool" where
  "sf_inv ident p dec c0 cfg =
     (case cfg of (s, cs) \<Rightarrow>
        \<not> writer (cacheMut s) \<and> readers (cacheMut s) = 0 \<and>
        gate_unique cs \<and>
        (requestMut s \<longleftrightarrow> gate_held cs) \<and>
        (\<forall>c. map_of (schemas s) ident = Some c \<longrightarrow> decoder c = dec) \<and>
        count_list (requests s) ident =
          c0 + (if map_of (schemas s) ident \<noteq> None \<or> in_flight ident cs then 1 else 0) \<and>
        callers_ok ident p dec (map_of (schemas s) ident \<noteq> None) cs)"

text \<open>The number of steps a caller has left at most.\<close>

fun rank :: "'doc pc \<Rightarrow> nat" where
  "rank Start = 7"
| "rank WaitGate = 6"
| "rank Recheck = 5"
| "rank Fetch = 4"
| "rank (Build p) = 3"
| "rank (Insert d) = 2"
| "rank (Hit2 c) = 2"
| "rank (Hit1 c) = 1"
| "rank (Release r) = 1"
| "rank (Done r) = 0"

definition weight :: "'doc config \<Rightarrow> nat" where
  "weight cfg = sum_list (map (\<lambda>c. rank (snd c)) (snd cfg))"

section \<open>Facts about words\<close>

lemma be32_concat:
  "uint (be32 b0 b1 b2 b3) =
     concat_bit 8 (uint b3) (concat_bit 8 (uint b2) (concat_bit 8 (uint b1) (uint b0)))"
  by (rule bit_eqI) (auto simp: be32_def bit_simps dest: bit_imp_le_length)

lemma take_bit_byte: "take_bit 8 (uint (b::byte)) = uint b"
  by (simp add: take_bit_int_eq_self_iff) (use uint_lt2p [of b] in simp)

lemma be32_uint:
  "uint (be32 b0 b1 b2 b3) = 16777216 * uint b0 + 65536 * uint b1 + 256 * uint b2 + uint b3"
  by (simp add: be32_concat concat_bit_eq take_bit_byte push_bit_eq_mult)

lemma sint_int_of_uint32: "sint (ucast (u :: uint32) :: go_int) = uint u"
proof -
  have lo: "0 \<le> uint u" by simp
  have hi: "uint u < 4294967296" using uint_lt2p [of u] by simp
  have "- (2 ^ 63) \<le> (0::int)" by simp
  then have a: "- (2 ^ 63) \<le> uint u" using lo by (rule order_trans)
  have "(4294967296::int) \<le> 2 ^ 63" by simp
  with hi have b: "uint u < 2 ^ 63" by (rule less_le_trans)
  from a b have "signed_take_bit 63 (uint u) = uint u"
    by (rule signed_take_bit_int_eq_self)
  then show ?thesis by (simp add: signed_ucast_eq)
qed

lemma be32_of_bytes:
  "be32 (ucast (drop_bit 24 i)) (ucast (drop_bit 16 i)) (ucast (drop_bit 8 i)) (ucast i) = i"
proof (rule bit_word_eqI)
  fix n assume "n < LENGTH(32)"
  then have n: "n < 32" by simp
  consider "n < 8" | "8 \<le> n" "n < 16" | "16 \<le> n" "n < 24" | "24 \<le> n" by linarith
  then show "bit (be32 (ucast (drop_bit 24 i)) (ucast (drop_bit 16 i))
                       (ucast (drop_bit 8 i)) (ucast i)) n = bit i n"
    using n by cases (auto simp: be32_def bit_simps)
qed

section \<open>Facts about extractID\<close>

lemma length_ge5E:
  assumes "5 \<le> length xs"
  obtains x0 x1 x2 x3 x4 r where "xs = x0 # x1 # x2 # x3 # x4 # r"
proof -
  from assms have "Suc (Suc (Suc (Suc (Suc 0)))) \<le> length xs" by simp
  then show ?thesis using that by (auto simp: Suc_le_length_iff)
qed

lemma slice_prefix:
  assumes "5 \<le> slice_len b"
  shows "slice_expr b 1 5 = Inr \<lparr>elems = [elems b ! 1, elems b ! 2, elems b ! 3, elems b ! 4],
                                  spare = drop 5 (elems b @ spare b)\<rparr>"
proof -
  have "5 \<le> length (elems b)" using assms by (simp add: slice_len_def)
  then obtain x0 x1 x2 x3 x4 r where e: "elems b = x0 # x1 # x2 # x3 # x4 # r"
    by (rule length_ge5E)
  show ?thesis by (simp add: slice_expr_def slice_cap_def e)
qed

lemma slice_rest:
  assumes "5 \<le> slice_len b"
  shows "slice_from b 5 = Inr \<lparr>elems = drop 5 (elems b), spare = spare b\<rparr>"
  using assms by (simp add: slice_from_def slice_expr_def slice_cap_def slice_len_def)

lemma Uint32_four: "Uint32 \<lparr>elems = [a, b, c, d], spare = s\<rparr> = Inr (be32 a b c d)"
  by (simp add: Uint32_def slice_len_def)

lemma extractID_ok:
  assumes "5 \<le> slice_len b" and "elems b ! 0 = 0"
  shows "extractID b =
           Inr (ucast (be32 (elems b ! 1) (elems b ! 2) (elems b ! 3) (elems b ! 4)),
                \<lparr>elems = drop 5 (elems b), spare = spare b\<rparr>)"
proof -
  have "slice_len b \<noteq> 0" using assms(1) by simp
  then show ?thesis
    unfolding extractID_def slice_prefix [OF assms(1)] slice_rest [OF assms(1)]
    using assms(2) by (simp add: Uint32_four)
qed

lemma extractID_encode:
  "extractID \<lparr>elems = encode_envelope i payload, spare = sp\<rparr> =
     Inr (ucast i, \<lparr>elems = payload, spare = sp\<rparr>)"
proof -
  let ?b = "\<lparr>elems = encode_envelope i payload, spare = sp\<rparr>"
  have "5 \<le> slice_len ?b" "elems ?b ! 0 = 0"
    by (simp_all add: slice_len_def encode_envelope_def)
  then have "extractID ?b =
      Inr (ucast (be32 (elems ?b ! 1) (elems ?b ! 2) (elems ?b ! 3) (elems ?b ! 4)),
           \<lparr>elems = drop 5 (elems ?b), spare = spare ?b\<rparr>)"
    by (rule extractID_ok)
  then show ?thesis by (simp add: encode_envelope_def be32_of_bytes)
qed

lemma extractID_empty: "slice_len b = 0 \<Longrightarrow> extractID b = Inl (Err MessageIsEmpty)"
  by (simp add: extractID_def)

lemma extractID_version:
  "slice_len b \<noteq> 0 \<Longrightarrow> elems b ! 0 \<noteq> 0 \<Longrightarrow>
     extractID b = Inl (Err (VersionNotSupported (elems b ! 0)))"
  by (simp add: extractID_def)

lemma extractID_short:
  assumes "slice_len b \<noteq> 0" "slice_len b < 5" "elems b ! 0 = 0"
  shows "extractID b =
           Inl (Panic (if slice_cap b < 5 then SliceBoundsCap 5 (slice_cap b)
                       else SliceBounds 5 (slice_len b)))"
proof (cases "slice_cap b < 5")
  case True
  then show ?thesis using assms by (simp add: extractID_def slice_expr_def)
next
  case False
  then have c: "5 \<le> slice_cap b" by simp
  have le: "slice_len b \<le> slice_cap b" by (simp add: slice_len_def slice_cap_def)
  obtain p where p: "slice_expr b 1 5 = Inr p" "slice_len p = 4"
    using c by (simp add: slice_expr_def slice_len_def slice_cap_def)
  have u: "\<exists>u. Uint32 p = Inr u" using p(2) by (simp add: Uint32_def)
  have r: "slice_from b 5 = Inl (Panic (SliceBounds 5 (slice_len b)))"
    using assms(2) le c by (simp add: slice_from_def slice_expr_def)
  show ?thesis using assms False u p r by (auto simp: extractID_def)
qed

lemma extractID_Inr:
  assumes "extractID b = Inr (ident, remaining)"
  shows "5 \<le> slice_len b" and "remaining = \<lparr>elems = drop 5 (elems b), spare = spare b\<rparr>"
proof -
  consider (empty) "slice_len b = 0"
    | (version) "slice_len b \<noteq> 0" "elems b ! 0 \<noteq> 0"
    | (short) "slice_len b \<noteq> 0" "slice_len b < 5" "elems b ! 0 = 0"
    | (long) "5 \<le> slice_len b" "elems b ! 0 = 0"
    by linarith
  then have "5 \<le> slice_len b \<and> remaining = \<lparr>elems = drop 5 (elems b), spare = spare b\<rparr>"
  proof cases
    case empty
    then show ?thesis using assms by (simp add: extractID_empty)
  next
    case version
    then show ?thesis using assms by (simp add: extractID_version)
  next
    case short
    then show ?thesis using assms by (simp add: extractID_short)
  next
    case long
    then show ?thesis using assms by (simp add: extractID_ok)
  qed
  then show "5 \<le> slice_len b" and "remaining = \<lparr>elems = drop 5 (elems b), spare = spare b\<rparr>"
    by simp_all
qed

lemma extractID_remaining_differs:
  assumes "extractID b = Inr (ident, remaining)"
  shows "remaining \<noteq> b"
proof
  assume "remaining = b"
  then have "length (elems b) = length (drop 5 (elems b))"
    using extractID_Inr(2) [OF assms] by (metis byte_slice.select_convs(1))
  then show False using extractID_Inr(1) [OF assms] by (simp add: slice_len_def)
qed

lemma extractID_example:
  "extractID \<lparr>elems = [0, 0, 0, 0, 7, 42], spare = []\<rparr> = Inr (7, \<lparr>elems = [42], spare = []\<rparr>)"
  by (simp add: extractID_ok slice_len_def be32_def)

section \<open>Claims about the identifier codec\<close>

text \<open>
  C1. For every input of length at least 5 whose first byte is 0, \<open>extractID\<close> succeeds;
  the identifier it returns is the unsigned big-endian value of bytes 1 to 4 and the
  remainder is the input from byte 5 on, on the same backing array. Read against the
  synthetic encoder (byte 0, the identifier in four bytes, the payload) this is a round
  trip: decoding an encoded envelope gives back the identifier and the payload.
\<close>

theorem extractID_roundtrip:
  "(5 \<le> slice_len b \<and> elems b ! 0 = 0 \<longrightarrow>
      (\<exists>ident remaining. extractID b = Inr (ident, remaining) \<and>
         sint ident = 16777216 * uint (elems b ! 1) + 65536 * uint (elems b ! 2)
                      + 256 * uint (elems b ! 3) + uint (elems b ! 4) \<and>
         remaining = \<lparr>elems = drop 5 (elems b), spare = spare b\<rparr>)) \<and>
   extractID \<lparr>elems = encode_envelope i payload, spare = sp\<rparr> =
     Inr (ucast i, \<lparr>elems = payload, spare = sp\<rparr>)"
proof (intro conjI impI)
  assume "5 \<le> slice_len b \<and> elems b ! 0 = 0"
  then have "extractID b =
      Inr (ucast (be32 (elems b ! 1) (elems b ! 2) (elems b ! 3) (elems b ! 4)),
           \<lparr>elems = drop 5 (elems b), spare = spare b\<rparr>)"
    by (simp add: extractID_ok)
  then show "\<exists>ident remaining. extractID b = Inr (ident, remaining) \<and>
         sint ident = 16777216 * uint (elems b ! 1) + 65536 * uint (elems b ! 2)
                      + 256 * uint (elems b ! 3) + uint (elems b ! 4) \<and>
         remaining = \<lparr>elems = drop 5 (elems b), spare = spare b\<rparr>"
    by (simp add: sint_int_of_uint32 be32_uint)
next
  show "extractID \<lparr>elems = encode_envelope i payload, spare = sp\<rparr> =
     Inr (ucast i, \<lparr>elems = payload, spare = sp\<rparr>)"
    by (rule extractID_encode)
qed

theorem extractID_roundtrip_witness:
  "5 \<le> slice_len \<lparr>elems = [0, 0, 0, 1, 2, 9], spare = []\<rparr> \<and>
   elems \<lparr>elems = [0, 0, 0, 1, 2, 9], spare = []\<rparr> ! 0 = 0 \<and>
   (\<exists>ident remaining.
      extractID \<lparr>elems = [0, 0, 0, 1, 2, 9], spare = []\<rparr> = Inr (ident, remaining) \<and>
      sint ident = 258 \<and> remaining = \<lparr>elems = [9], spare = []\<rparr>) \<and>
   extractID \<lparr>elems = encode_envelope 258 [9], spare = []\<rparr> =
     Inr (258, \<lparr>elems = [9], spare = []\<rparr>)"
  using extractID_roundtrip [of "\<lparr>elems = [0, 0, 0, 1, 2, 9], spare = []\<rparr>" 258 "[9]" "[]"]
  by (simp add: slice_len_def)

text \<open>
  C4. On an empty input \<open>extractID\<close> fails with the error "message is empty"; on an input
  whose first byte is not zero, whatever its length, it fails with the error that names
  the unsupported version. In both cases the result is the error, with no identifier and
  no remainder.
\<close>

theorem extractID_rejects:
  "(slice_len b = 0 \<longrightarrow> extractID b = Inl (Err MessageIsEmpty)) \<and>
   (slice_len b \<noteq> 0 \<and> elems b ! 0 \<noteq> 0 \<longrightarrow>
      extractID b = Inl (Err (VersionNotSupported (elems b ! 0))))"
  by (simp add: extractID_empty extractID_version)

theorem extractID_rejects_witness:
  "slice_len \<lparr>elems = [], spare = []\<rparr> = 0 \<and>
   extractID \<lparr>elems = [], spare = []\<rparr> = Inl (Err MessageIsEmpty) \<and>
   slice_len \<lparr>elems = [1, 0, 0, 0, 7], spare = []\<rparr> \<noteq> 0 \<and>
   elems \<lparr>elems = [1, 0, 0, 0, 7], spare = []\<rparr> ! 0 \<noteq> 0 \<and>
   extractID \<lparr>elems = [1, 0, 0, 0, 7], spare = []\<rparr> = Inl (Err (VersionNotSupported 1)) \<and>
   extractID \<lparr>elems = [255], spare = []\<rparr> = Inl (Err (VersionNotSupported 255))"
  using extractID_rejects [of "\<lparr>elems = [], spare = []\<rparr>"]
    extractID_rejects [of "\<lparr>elems = [1, 0, 0, 0, 7], spare = []\<rparr>"]
    extractID_rejects [of "\<lparr>elems = [255], spare = []\<rparr>"]
  by (simp add: slice_len_def)

text \<open>
  C9, as the claim states it: for every input of length 1 to 4 whose first byte is 0 the
  slice expression \<^verbatim>\<open>b[1:5]\<close> is out of bounds. This fails for a slice whose capacity is at
  least 5: a message of the single byte 0 on a backing array of five cells passes
  \<^verbatim>\<open>b[1:5]\<close>, which reads up to the capacity, and \<open>extractID\<close> panics one statement later,
  at \<^verbatim>\<open>b[5:]\<close>.
\<close>

theorem extractID_prefix_in_bounds_counterexample:
  "slice_len \<lparr>elems = [0], spare = [0, 0, 0, 7]\<rparr> = 1 \<and>
   elems \<lparr>elems = [0], spare = [0, 0, 0, 7]\<rparr> ! 0 = 0 \<and>
   slice_expr \<lparr>elems = [0], spare = [0, 0, 0, 7]\<rparr> 1 5 = Inr \<lparr>elems = [0, 0, 0, 7], spare = []\<rparr> \<and>
   extractID \<lparr>elems = [0], spare = [0, 0, 0, 7]\<rparr> = Inl (Panic (SliceBounds 5 1))"
  by (simp add: extractID_def slice_expr_def slice_from_def slice_len_def slice_cap_def
      Uint32_def)

text \<open>
  C9, amended. \<open>extractID\<close> panics exactly on the inputs of length 1 to 4 whose first
  byte is 0: at \<^verbatim>\<open>b[1:5]\<close> when the capacity is below 5, and otherwise at \<^verbatim>\<open>b[5:]\<close>. It
  never blocks, its only error results are the two early returns, and on every input
  of length at least 5 whose first byte is 0 it succeeds.
\<close>

theorem extractID_totality:
  "((\<exists>p. extractID b = Inl (Panic p)) \<longleftrightarrow>
      (1 \<le> slice_len b \<and> slice_len b \<le> 4 \<and> elems b ! 0 = 0)) \<and>
   (1 \<le> slice_len b \<and> slice_len b \<le> 4 \<and> elems b ! 0 = 0 \<longrightarrow>
      extractID b = Inl (Panic (if slice_cap b < 5 then SliceBoundsCap 5 (slice_cap b)
                                else SliceBounds 5 (slice_len b)))) \<and>
   (\<forall>e. extractID b = Inl (Err e) \<longrightarrow>
      (slice_len b = 0 \<and> e = MessageIsEmpty) \<or>
      (slice_len b \<noteq> 0 \<and> elems b ! 0 \<noteq> 0 \<and> e = VersionNotSupported (elems b ! 0))) \<and>
   extractID b \<noteq> Inl Blocked \<and>
   (5 \<le> slice_len b \<and> elems b ! 0 = 0 \<longrightarrow> (\<exists>r. extractID b = Inr r))"
proof -
  consider (empty) "slice_len b = 0"
    | (version) "slice_len b \<noteq> 0" "elems b ! 0 \<noteq> 0"
    | (short) "slice_len b \<noteq> 0" "slice_len b < 5" "elems b ! 0 = 0"
    | (long) "5 \<le> slice_len b" "elems b ! 0 = 0"
    by linarith
  then show ?thesis
  proof cases
    case empty
    then show ?thesis by (simp add: extractID_empty)
  next
    case version
    then show ?thesis by (simp add: extractID_version)
  next
    case short
    then show ?thesis by (simp add: extractID_short)
  next
    case long
    then show ?thesis by (simp add: extractID_ok)
  qed
qed

theorem extractID_totality_witness:
  "1 \<le> slice_len \<lparr>elems = [0, 3], spare = []\<rparr> \<and>
   slice_len \<lparr>elems = [0, 3], spare = []\<rparr> \<le> 4 \<and>
   elems \<lparr>elems = [0, 3], spare = []\<rparr> ! 0 = 0 \<and>
   extractID \<lparr>elems = [0, 3], spare = []\<rparr> = Inl (Panic (SliceBoundsCap 5 2)) \<and>
   extractID \<lparr>elems = [0, 3], spare = [0, 0, 0, 0]\<rparr> = Inl (Panic (SliceBounds 5 2)) \<and>
   5 \<le> slice_len \<lparr>elems = [0, 0, 0, 0, 7], spare = []\<rparr> \<and>
   (\<exists>r. extractID \<lparr>elems = [0, 0, 0, 0, 7], spare = []\<rparr> = Inr r)"
  using extractID_totality [of "\<lparr>elems = [0, 3], spare = []\<rparr>"]
    extractID_totality [of "\<lparr>elems = [0, 3], spare = [0, 0, 0, 0]\<rparr>"]
    extractID_totality [of "\<lparr>elems = [0, 0, 0, 0, 7], spare = []\<rparr>"]
  by (simp add: slice_len_def slice_cap_def)

section \<open>Facts about the cache\<close>

lemma RUnlock_RLock: "RLock m = Some m' \<Longrightarrow> RUnlock m' = m"
  by (auto simp: RLock_def RUnlock_def split: if_splits)

lemma Unlock_Lock: "Lock m = Some m' \<Longrightarrow> Unlock m' = m"
  by (auto simp: Lock_def Unlock_def split: if_splits)

lemma lookup_eq:
  "lookup ident s = (if writer (cacheMut s) then (Inl Blocked, s) else (Inr (map_of (schemas s) ident), s))"
  by (simp add: lookup_def RLock_def RUnlock_def)

lemma insert_decoder_eq:
  "insert_decoder ident now dec s =
     (if writer (cacheMut s) \<or> 0 < readers (cacheMut s) then (Inl Blocked, s)
      else (Inr (), s\<lparr>schemas := AList.update ident \<lparr>lastUsedUnixSeconds = Unix now, decoder = dec\<rparr> (schemas s)\<rparr>))"
  by (simp add: insert_decoder_def Lock_def Unlock_def)

lemma getDecoder_hit:
  "\<not> writer (cacheMut s) \<Longrightarrow> map_of (schemas s) ident = Some c \<Longrightarrow>
   getDecoder reg now ident s = (Inr (decoder c), refresh ident now s)"
  by (simp add: getDecoder_def lookup_eq)

lemma getDecoder_miss:
  assumes "quiescent s" "map_of (schemas s) ident = None"
  shows "getDecoder reg now ident s =
     (case GetSchemaByID reg ident of
        Inl e \<Rightarrow> (Inl (Err e), s\<lparr>requests := requests s @ [ident]\<rparr>)
      | Inr p \<Rightarrow>
         (case build reg p of
            Inl e \<Rightarrow> (Inl (Err e), s\<lparr>requests := requests s @ [ident]\<rparr>)
          | Inr dec \<Rightarrow> (Inr dec, s\<lparr>schemas := AList.update ident \<lparr>lastUsedUnixSeconds = Unix now, decoder = dec\<rparr> (schemas s), requests := requests s @ [ident]\<rparr>)))"
  using assms
  by (simp add: getDecoder_def getDecoder_locked_def lookup_eq insert_decoder_eq fetch_def
      MLock_def MUnlock_def quiescent_def split: sum.splits)


lemma getDecoder_Err:
  assumes "getDecoder reg now ident s = (Inl (Err e), s')"
  shows "s' = s\<lparr>requests := requests s @ [ident]\<rparr>"
    and "map_of (schemas s) ident = None"
    and "\<not> writer (cacheMut s)" and "\<not> requestMut s"
    and "GetSchemaByID reg ident = Inl e \<or> (\<exists>p. GetSchemaByID reg ident = Inr p \<and> build reg p = Inl e)"
  using assms
  by (auto simp: getDecoder_def getDecoder_locked_def lookup_eq insert_decoder_eq fetch_def
      MLock_def MUnlock_def split: sum.splits if_splits option.splits failure.splits)

lemma getDecoder_miss_requests:
  assumes "\<not> writer (cacheMut s)" "\<not> requestMut s" "map_of (schemas s) ident = None"
  shows "requests (snd (getDecoder reg now ident s)) = requests s @ [ident]"
  using assms
  by (auto simp: getDecoder_def getDecoder_locked_def lookup_eq insert_decoder_eq fetch_def
      MLock_def MUnlock_def split: sum.splits if_splits option.splits failure.splits)

lemma build_cases:
  "build reg p =
     (if Type p = ''PROTOBUF'' then getProtobufDecoder reg p
      else if Type p = [] \<or> Type p = ''AVRO'' then getAvroDecoder reg p
      else Inl (SchemaTypeNotSupported (Type p)))"
  by (simp add: build_def)

section \<open>Facts about Close and clearExpired\<close>

lemma delete_keys_covering: "fst ` set al \<subseteq> set ks \<Longrightarrow> delete_keys ks al = []"
proof (induction ks arbitrary: al)
  case Nil
  then show ?case by simp
next
  case (Cons k ks)
  have "fst ` set (AList.delete k al) \<subseteq> set ks"
    using Cons.prems by (auto simp: AList.delete_eq)
  then show ?case using Cons.IH by simp
qed

lemma delete_keys_own: "delete_keys (map fst al) al = []"
  by (rule delete_keys_covering) simp

lemma Close_eq:
  assumes "\<not> writer (cacheMut s)" "readers (cacheMut s) = 0"
  shows "Close ctx_err s =
     (case ctx_err of
        None \<Rightarrow> (Inr (), s\<lparr>schemas := [], shutSig := CloseNow (shutSig s)\<rparr>)
      | Some e \<Rightarrow> (Inl (Err e), s\<lparr>shutSig := CloseNow (shutSig s)\<rparr>))"
  using assms by (simp add: Close_def Lock_def Unlock_def delete_keys_own Let_def split: option.splits)

lemma Close_blocked:
  assumes "writer (cacheMut s) \<or> 0 < readers (cacheMut s)"
  shows "fst (Close ctx_err s) = Inl Blocked"
  using assms by (auto simp add: Close_def Lock_def Let_def)







lemma remove_stale_missing:
  assumes "map_of al k = None"
  shows "remove_stale t (k # ks) al = Inl (Panic NilDereference)"
  using assms by simp

lemma CloseNow_idem: "CloseNow (CloseNow sig) = CloseNow sig"
  by (simp add: CloseNow_def)



lemma clearExpired_sweep_after_clear:
  "clearExpired_sweep t (k # ks)
     \<lparr>schemas = [], cacheMut = \<lparr>readers = 0, writer = False\<rparr>, requestMut = g,
      shutSig = sig, requests = rs\<rparr>
   = (Inl (Panic NilDereference),
      \<lparr>schemas = [], cacheMut = \<lparr>readers = 0, writer = True\<rparr>, requestMut = g,
       shutSig = sig, requests = rs\<rparr>)"
  by (simp add: clearExpired_sweep_def Lock_def)

section \<open>Facts about Process\<close>

lemma Process_extract_fails:
  "AsBytes msg = Inr b \<Longrightarrow> extractID b = Inl f \<Longrightarrow> Process reg now msg s = (Inl f, msg, s)"
  by (simp add: Process_def)

lemma Process_getDecoder_fails:
  "AsBytes msg = Inr b \<Longrightarrow> extractID b = Inr (ident, remaining) \<Longrightarrow>
   getDecoder reg now ident s = (Inl f, s1) \<Longrightarrow> Process reg now msg s = (Inl f, msg, s1)"
  by (simp add: Process_def)

lemma Process_decoder_fails:
  "AsBytes msg = Inr b \<Longrightarrow> extractID b = Inr (ident, remaining) \<Longrightarrow>
   getDecoder reg now ident s = (Inr dec, s1) \<Longrightarrow> dec (SetBytes msg remaining) = (msg1, Some e) \<Longrightarrow>
   Process reg now msg s = (Inl (Err e), msg1, s1)"
  by (simp add: Process_def)

lemma Process_decoder_ok:
  "AsBytes msg = Inr b \<Longrightarrow> extractID b = Inr (ident, remaining) \<Longrightarrow>
   getDecoder reg now ident s = (Inr dec, s1) \<Longrightarrow> dec (SetBytes msg remaining) = (msg1, None) \<Longrightarrow>
   Process reg now msg s = (Inr [msg1], msg1, s1)"
  by (simp add: Process_def)

lemma AsBytes_SetBytes: "AsBytes (SetBytes m b) = Inr b"
  by (simp add: AsBytes_def SetBytes_def)

section \<open>Claims about resolution\<close>

text \<open>
  C3. Whenever \<open>getDecoder\<close> returns an error, the error is the one of the registry
  request or of the choice and run of the builder, the cache is exactly as it was (only
  the request log has grown by the identifier), no entry stands under the identifier, and
  a later call for the same identifier, whatever the registry then answers, asks the
  registry again. Conversely, on a miss with the locks free, each way for resolution to
  fail (the request fails, the Protobuf or the Avro builder fails, the type tag is not
  supported) makes \<open>getDecoder\<close> return that error with the cache unchanged.
\<close>

theorem getDecoder_failure_not_cached:
  "(getDecoder reg now ident s = (Inl (Err e), s') \<longrightarrow>
      schemas s' = schemas s \<and> map_of (schemas s') ident = None \<and>
      s' = s\<lparr>requests := requests s @ [ident]\<rparr> \<and>
      (GetSchemaByID reg ident = Inl e \<or>
       (\<exists>p. GetSchemaByID reg ident = Inr p \<and> build reg p = Inl e)) \<and>
      (\<forall>reg' now'. requests (snd (getDecoder reg' now' ident s')) = requests s @ [ident, ident])) \<and>
   (\<not> writer (cacheMut s) \<and> \<not> requestMut s \<and> map_of (schemas s) ident = None \<and>
      (GetSchemaByID reg ident = Inl e \<or>
       (\<exists>p. GetSchemaByID reg ident = Inr p \<and> Type p = ''PROTOBUF'' \<and>
            getProtobufDecoder reg p = Inl e) \<or>
       (\<exists>p. GetSchemaByID reg ident = Inr p \<and> (Type p = [] \<or> Type p = ''AVRO'') \<and>
            getAvroDecoder reg p = Inl e) \<or>
       (\<exists>p. GetSchemaByID reg ident = Inr p \<and> Type p \<noteq> ''PROTOBUF'' \<and> Type p \<noteq> [] \<and>
            Type p \<noteq> ''AVRO'' \<and> e = SchemaTypeNotSupported (Type p)))
      \<longrightarrow> getDecoder reg now ident s = (Inl (Err e), s\<lparr>requests := requests s @ [ident]\<rparr>))"
proof (intro conjI impI)
  assume a: "getDecoder reg now ident s = (Inl (Err e), s')"
  note f = getDecoder_Err [OF a]
  show "schemas s' = schemas s" using f(1) by simp
  show "map_of (schemas s') ident = None" using f(1,2) by simp
  show "s' = s\<lparr>requests := requests s @ [ident]\<rparr>" by (rule f(1))
  show "GetSchemaByID reg ident = Inl e \<or>
       (\<exists>p. GetSchemaByID reg ident = Inr p \<and> build reg p = Inl e)" by (rule f(5))
  show "\<forall>reg' now'. requests (snd (getDecoder reg' now' ident s')) = requests s @ [ident, ident]"
  proof (intro allI)
    fix reg' :: "'a registry" and now'
    have "\<not> writer (cacheMut s')" "\<not> requestMut s'" "map_of (schemas s') ident = None"
      using f by simp_all
    then have "requests (snd (getDecoder reg' now' ident s')) = requests s' @ [ident]"
      by (rule getDecoder_miss_requests)
    then show "requests (snd (getDecoder reg' now' ident s')) = requests s @ [ident, ident]"
      using f(1) by simp
  qed
next
  assume b: "\<not> writer (cacheMut s) \<and> \<not> requestMut s \<and> map_of (schemas s) ident = None \<and>
      (GetSchemaByID reg ident = Inl e \<or>
       (\<exists>p. GetSchemaByID reg ident = Inr p \<and> Type p = ''PROTOBUF'' \<and>
            getProtobufDecoder reg p = Inl e) \<or>
       (\<exists>p. GetSchemaByID reg ident = Inr p \<and> (Type p = [] \<or> Type p = ''AVRO'') \<and>
            getAvroDecoder reg p = Inl e) \<or>
       (\<exists>p. GetSchemaByID reg ident = Inr p \<and> Type p \<noteq> ''PROTOBUF'' \<and> Type p \<noteq> [] \<and>
            Type p \<noteq> ''AVRO'' \<and> e = SchemaTypeNotSupported (Type p)))"
  then have "GetSchemaByID reg ident = Inl e \<or>
       (\<exists>p. GetSchemaByID reg ident = Inr p \<and> build reg p = Inl e)"
    by (auto simp: build_cases)
  then show "getDecoder reg now ident s = (Inl (Err e), s\<lparr>requests := requests s @ [ident]\<rparr>)"
    using b
    by (auto simp: getDecoder_def getDecoder_locked_def lookup_eq fetch_def MLock_def MUnlock_def)
qed



theorem getDecoder_failure_not_cached_witness:
  "getDecoder
     \<lparr>GetSchemaByID = (\<lambda>i. Inl (Foreign ''registry unavailable'')),
      getProtobufDecoder = (\<lambda>p. Inl (Foreign ''unused'')),
      getAvroDecoder = (\<lambda>p. Inl (Foreign ''unused''))\<rparr>
     0 7
     \<lparr>schemas = [], cacheMut = \<lparr>readers = 0, writer = False\<rparr>, requestMut = False,
      shutSig = \<lparr>raised = False\<rparr>, requests = []\<rparr>
   = (Inl (Err (Foreign ''registry unavailable'')),
      \<lparr>schemas = ([] :: (go_int \<times> nat cachedSchemaDecoder) list),
       cacheMut = \<lparr>readers = 0, writer = False\<rparr>, requestMut = False,
       shutSig = \<lparr>raised = False\<rparr>, requests = [7]\<rparr>) \<and>
   (\<forall>reg' now'. requests (snd (getDecoder reg' now' 7
      \<lparr>schemas = ([] :: (go_int \<times> nat cachedSchemaDecoder) list),
       cacheMut = \<lparr>readers = 0, writer = False\<rparr>, requestMut = False,
       shutSig = \<lparr>raised = False\<rparr>, requests = [7]\<rparr>)) = [7, 7])"
proof -
  let ?reg = "\<lparr>GetSchemaByID = (\<lambda>i. Inl (Foreign ''registry unavailable'')),
      getProtobufDecoder = (\<lambda>p. Inl (Foreign ''unused'')),
      getAvroDecoder = (\<lambda>p. Inl (Foreign ''unused''))\<rparr> :: nat registry"
  let ?s = "\<lparr>schemas = [], cacheMut = \<lparr>readers = 0, writer = False\<rparr>, requestMut = False,
      shutSig = \<lparr>raised = False\<rparr>, requests = []\<rparr> :: nat schemaRegistryDecoder"
  let ?s' = "\<lparr>schemas = [], cacheMut = \<lparr>readers = 0, writer = False\<rparr>, requestMut = False,
      shutSig = \<lparr>raised = False\<rparr>, requests = [7]\<rparr> :: nat schemaRegistryDecoder"
  let ?e = "Foreign ''registry unavailable''"
  have pre: "\<not> writer (cacheMut ?s) \<and> \<not> requestMut ?s \<and> map_of (schemas ?s) 7 = None \<and>
      GetSchemaByID ?reg 7 = Inl ?e" by simp
  have "getDecoder ?reg 0 7 ?s = (Inl (Err ?e), ?s\<lparr>requests := requests ?s @ [7]\<rparr>)"
    using getDecoder_failure_not_cached [of ?reg 0 7 ?s ?e, THEN conjunct2] pre by blast
  then have run: "getDecoder ?reg 0 7 ?s = (Inl (Err ?e), ?s')" by simp
  have "\<forall>reg' now'. requests (snd (getDecoder reg' now' 7 ?s')) = requests ?s @ [7, 7]"
    using getDecoder_failure_not_cached [of ?reg 0 7 ?s ?e ?s', THEN conjunct1] run by blast
  then have "\<forall>reg' now'. requests (snd (getDecoder reg' now' 7 ?s')) = [7, 7]" by simp
  with run show ?thesis by blast
qed

text \<open>
  C5. On a confirmed miss (locks free, no entry under the identifier, the registry
  answers) the builder is chosen by the type tag alone: the Avro builder for the empty tag
  and for "AVRO", the Protobuf builder for "PROTOBUF"; the result of \<open>getDecoder\<close> is
  that builder's error with the cache unchanged, or its decoder, inserted under the
  identifier. For every other tag \<open>getDecoder\<close> fails with the error "schema type not
  supported" and the cache is unchanged.
\<close>

theorem getDecoder_dispatch:
  "quiescent s \<and> map_of (schemas s) ident = None \<and> GetSchemaByID reg ident = Inr p \<longrightarrow>
     (Type p = [] \<or> Type p = ''AVRO'' \<longrightarrow>
        getDecoder reg now ident s =
          (case getAvroDecoder reg p of
             Inl e \<Rightarrow> (Inl (Err e), s\<lparr>requests := requests s @ [ident]\<rparr>)
           | Inr dec \<Rightarrow>
               (Inr dec,
                s\<lparr>schemas := AList.update ident
                       \<lparr>lastUsedUnixSeconds = Unix now, decoder = dec\<rparr> (schemas s),
                  requests := requests s @ [ident]\<rparr>))) \<and>
     (Type p = ''PROTOBUF'' \<longrightarrow>
        getDecoder reg now ident s =
          (case getProtobufDecoder reg p of
             Inl e \<Rightarrow> (Inl (Err e), s\<lparr>requests := requests s @ [ident]\<rparr>)
           | Inr dec \<Rightarrow>
               (Inr dec,
                s\<lparr>schemas := AList.update ident
                       \<lparr>lastUsedUnixSeconds = Unix now, decoder = dec\<rparr> (schemas s),
                  requests := requests s @ [ident]\<rparr>))) \<and>
     (Type p \<noteq> [] \<and> Type p \<noteq> ''AVRO'' \<and> Type p \<noteq> ''PROTOBUF'' \<longrightarrow>
        getDecoder reg now ident s =
          (Inl (Err (SchemaTypeNotSupported (Type p))), s\<lparr>requests := requests s @ [ident]\<rparr>))"
proof (intro impI)
  assume a: "quiescent s \<and> map_of (schemas s) ident = None \<and> GetSchemaByID reg ident = Inr p"
  then have g: "getDecoder reg now ident s =
      (case build reg p of
         Inl e \<Rightarrow> (Inl (Err e), s\<lparr>requests := requests s @ [ident]\<rparr>)
       | Inr dec \<Rightarrow>
           (Inr dec,
            s\<lparr>schemas := AList.update ident
                   \<lparr>lastUsedUnixSeconds = Unix now, decoder = dec\<rparr> (schemas s),
              requests := requests s @ [ident]\<rparr>))"
    by (simp add: getDecoder_miss)
  show "(Type p = [] \<or> Type p = ''AVRO'' \<longrightarrow>
        getDecoder reg now ident s =
          (case getAvroDecoder reg p of
             Inl e \<Rightarrow> (Inl (Err e), s\<lparr>requests := requests s @ [ident]\<rparr>)
           | Inr dec \<Rightarrow>
               (Inr dec,
                s\<lparr>schemas := AList.update ident
                       \<lparr>lastUsedUnixSeconds = Unix now, decoder = dec\<rparr> (schemas s),
                  requests := requests s @ [ident]\<rparr>))) \<and>
     (Type p = ''PROTOBUF'' \<longrightarrow>
        getDecoder reg now ident s =
          (case getProtobufDecoder reg p of
             Inl e \<Rightarrow> (Inl (Err e), s\<lparr>requests := requests s @ [ident]\<rparr>)
           | Inr dec \<Rightarrow>
               (Inr dec,
                s\<lparr>schemas := AList.update ident
                       \<lparr>lastUsedUnixSeconds = Unix now, decoder = dec\<rparr> (schemas s),
                  requests := requests s @ [ident]\<rparr>))) \<and>
     (Type p \<noteq> [] \<and> Type p \<noteq> ''AVRO'' \<and> Type p \<noteq> ''PROTOBUF'' \<longrightarrow>
        getDecoder reg now ident s =
          (Inl (Err (SchemaTypeNotSupported (Type p))), s\<lparr>requests := requests s @ [ident]\<rparr>))"
    unfolding g by (auto simp: build_cases)
qed


theorem getDecoder_dispatch_witness:
  "getDecoder
     \<lparr>GetSchemaByID = (\<lambda>i. Inr \<lparr>Type = [], Schema = ''int''\<rparr>),
      getProtobufDecoder = (\<lambda>p. Inr (\<lambda>m. (m\<lparr>structured := Some 2\<rparr>, None))),
      getAvroDecoder = (\<lambda>p. Inr (\<lambda>m. (m\<lparr>structured := Some 1\<rparr>, None)))\<rparr>
     3000000000 7
     \<lparr>schemas = [], cacheMut = \<lparr>readers = 0, writer = False\<rparr>, requestMut = False,
      shutSig = \<lparr>raised = False\<rparr>, requests = []\<rparr>
   = (Inr (\<lambda>m. (m\<lparr>structured := Some (1::nat)\<rparr>, None)),
      \<lparr>schemas = [(7, \<lparr>lastUsedUnixSeconds = 3,
                          decoder = (\<lambda>m. (m\<lparr>structured := Some 1\<rparr>, None))\<rparr>)],
       cacheMut = \<lparr>readers = 0, writer = False\<rparr>, requestMut = False,
       shutSig = \<lparr>raised = False\<rparr>, requests = [7]\<rparr>) \<and>
   getDecoder
     \<lparr>GetSchemaByID = (\<lambda>i. Inr \<lparr>Type = ''JSON'', Schema = ''{}''\<rparr>),
      getProtobufDecoder = (\<lambda>p. Inr (\<lambda>m. (m\<lparr>structured := Some 2\<rparr>, None))),
      getAvroDecoder = (\<lambda>p. Inr (\<lambda>m. (m\<lparr>structured := Some 1\<rparr>, None)))\<rparr>
     3000000000 7
     \<lparr>schemas = [], cacheMut = \<lparr>readers = 0, writer = False\<rparr>, requestMut = False,
      shutSig = \<lparr>raised = False\<rparr>, requests = []\<rparr>
   = (Inl (Err (SchemaTypeNotSupported ''JSON'')),
      \<lparr>schemas = ([] :: (go_int \<times> nat cachedSchemaDecoder) list),
       cacheMut = \<lparr>readers = 0, writer = False\<rparr>, requestMut = False,
       shutSig = \<lparr>raised = False\<rparr>, requests = [7]\<rparr>)"
proof -
  let ?s = "\<lparr>schemas = [], cacheMut = \<lparr>readers = 0, writer = False\<rparr>, requestMut = False,
      shutSig = \<lparr>raised = False\<rparr>, requests = []\<rparr> :: nat schemaRegistryDecoder"
  let ?avro = "\<lparr>GetSchemaByID = (\<lambda>i. Inr \<lparr>Type = [], Schema = ''int''\<rparr>),
      getProtobufDecoder = (\<lambda>p. Inr (\<lambda>m. (m\<lparr>structured := Some 2\<rparr>, None))),
      getAvroDecoder = (\<lambda>p. Inr (\<lambda>m. (m\<lparr>structured := Some 1\<rparr>, None)))\<rparr> :: nat registry"
  let ?json = "\<lparr>GetSchemaByID = (\<lambda>i. Inr \<lparr>Type = ''JSON'', Schema = ''{}''\<rparr>),
      getProtobufDecoder = (\<lambda>p. Inr (\<lambda>m. (m\<lparr>structured := Some 2\<rparr>, None))),
      getAvroDecoder = (\<lambda>p. Inr (\<lambda>m. (m\<lparr>structured := Some 1\<rparr>, None)))\<rparr> :: nat registry"
  have a: "quiescent ?s \<and> map_of (schemas ?s) 7 = None \<and>
           GetSchemaByID ?avro 7 = Inr \<lparr>Type = [], Schema = ''int''\<rparr>"
    by (simp add: quiescent_def)
  have j: "quiescent ?s \<and> map_of (schemas ?s) 7 = None \<and>
           GetSchemaByID ?json 7 = Inr \<lparr>Type = ''JSON'', Schema = ''{}''\<rparr>"
    by (simp add: quiescent_def)
  have ta: "Type \<lparr>Type = [], Schema = ''int''\<rparr> = [] \<or>
            Type \<lparr>Type = [], Schema = ''int''\<rparr> = ''AVRO''" by simp
  have tj: "Type \<lparr>Type = ''JSON'', Schema = ''{}''\<rparr> \<noteq> [] \<and>
            Type \<lparr>Type = ''JSON'', Schema = ''{}''\<rparr> \<noteq> ''AVRO'' \<and>
            Type \<lparr>Type = ''JSON'', Schema = ''{}''\<rparr> \<noteq> ''PROTOBUF''" by simp
  have 1: "getDecoder ?avro 3000000000 7 ?s =
      (case getAvroDecoder ?avro \<lparr>Type = [], Schema = ''int''\<rparr> of
         Inl e \<Rightarrow> (Inl (Err e), ?s\<lparr>requests := requests ?s @ [7]\<rparr>)
       | Inr dec \<Rightarrow>
           (Inr dec,
            ?s\<lparr>schemas := AList.update 7
                   \<lparr>lastUsedUnixSeconds = Unix 3000000000, decoder = dec\<rparr> (schemas ?s),
               requests := requests ?s @ [7]\<rparr>))"
    using getDecoder_dispatch [of ?s 7 ?avro "\<lparr>Type = [], Schema = ''int''\<rparr>" 3000000000]
      a ta by blast
  have 2: "getDecoder ?json 3000000000 7 ?s =
      (Inl (Err (SchemaTypeNotSupported (Type \<lparr>Type = ''JSON'', Schema = ''{}''\<rparr>))),
       ?s\<lparr>requests := requests ?s @ [7]\<rparr>)"
    using getDecoder_dispatch [of ?s 7 ?json "\<lparr>Type = ''JSON'', Schema = ''{}''\<rparr>" 3000000000]
      j tj by blast
  show ?thesis
    unfolding 1 2 by (simp add: Unix_def Second_def)
qed

section \<open>Claims about eviction and shutdown\<close>



text \<open>
  C6. With the write lock free, \<open>Close\<close> under a live context empties the cache and
  returns no error; under a context that is cancelled or expired it leaves the cache
  as it is and returns the context's error. Either way the lock is released, so a second
  \<open>Close\<close> does not wait: its result depends on its own context only, and under a live
  context it succeeds and leaves the cache empty.
\<close>

theorem Close_clears_or_reports:
  "\<not> writer (cacheMut s) \<and> readers (cacheMut s) = 0 \<longrightarrow>
     Close None s = (Inr (), s\<lparr>schemas := [], shutSig := CloseNow (shutSig s)\<rparr>) \<and>
     Close (Some e) s = (Inl (Err e), s\<lparr>shutSig := CloseNow (shutSig s)\<rparr>) \<and>
     (\<forall>c1 c2. fst (Close c2 (snd (Close c1 s))) =
                (case c2 of None \<Rightarrow> Inr () | Some e2 \<Rightarrow> Inl (Err e2))) \<and>
     (\<forall>c1. schemas (snd (Close None (snd (Close c1 s)))) = [])"
proof (intro impI conjI allI)
  assume a: "\<not> writer (cacheMut s) \<and> readers (cacheMut s) = 0"
  then have free: "\<not> writer (cacheMut s)" "readers (cacheMut s) = 0" by simp_all
  show "Close None s = (Inr (), s\<lparr>schemas := [], shutSig := CloseNow (shutSig s)\<rparr>)"
    by (simp add: Close_eq [OF free])
  show "Close (Some e) s = (Inl (Err e), s\<lparr>shutSig := CloseNow (shutSig s)\<rparr>)"
    by (simp add: Close_eq [OF free])
  have after: "\<not> writer (cacheMut (snd (Close c1 s)))" "readers (cacheMut (snd (Close c1 s))) = 0"
    for c1
    using free by (simp_all add: Close_eq [OF free] split: option.splits)
  show "fst (Close c2 (snd (Close c1 s))) =
          (case c2 of None \<Rightarrow> Inr () | Some e2 \<Rightarrow> Inl (Err e2))" for c1 c2
    by (simp add: Close_eq [OF after] split: option.splits)
  show "schemas (snd (Close None (snd (Close c1 s)))) = []" for c1
    by (simp add: Close_eq [OF after])
qed

theorem Close_clears_or_reports_witness:
  "Close None
     \<lparr>schemas = [(7 :: go_int, \<lparr>lastUsedUnixSeconds = 3, decoder = (\<lambda>m :: nat message. (m, None))\<rparr>)],
      cacheMut = \<lparr>readers = 0, writer = False\<rparr>, requestMut = False,
      shutSig = \<lparr>raised = False\<rparr>, requests = [7]\<rparr>
   = (Inr (),
      \<lparr>schemas = [], cacheMut = \<lparr>readers = 0, writer = False\<rparr>, requestMut = False,
       shutSig = \<lparr>raised = True\<rparr>, requests = [7]\<rparr>) \<and>
   Close (Some (Foreign ''context deadline exceeded''))
     \<lparr>schemas = [(7 :: go_int, \<lparr>lastUsedUnixSeconds = 3, decoder = (\<lambda>m :: nat message. (m, None))\<rparr>)],
      cacheMut = \<lparr>readers = 0, writer = False\<rparr>, requestMut = False,
      shutSig = \<lparr>raised = False\<rparr>, requests = [7]\<rparr>
   = (Inl (Err (Foreign ''context deadline exceeded'')),
      \<lparr>schemas = [(7, \<lparr>lastUsedUnixSeconds = 3, decoder = (\<lambda>m. (m, None))\<rparr>)],
       cacheMut = \<lparr>readers = 0, writer = False\<rparr>, requestMut = False,
       shutSig = \<lparr>raised = True\<rparr>, requests = [7]\<rparr>) \<and>
   fst (Close None (snd (Close None
     \<lparr>schemas = [(7 :: go_int, \<lparr>lastUsedUnixSeconds = 3, decoder = (\<lambda>m :: nat message. (m, None))\<rparr>)],
      cacheMut = \<lparr>readers = 0, writer = False\<rparr>, requestMut = False,
      shutSig = \<lparr>raised = False\<rparr>, requests = [7]\<rparr>))) = Inr ()"
proof -
  let ?s = "\<lparr>schemas = [(7 :: go_int, \<lparr>lastUsedUnixSeconds = 3, decoder = (\<lambda>m :: nat message. (m, None))\<rparr>)],
      cacheMut = \<lparr>readers = 0, writer = False\<rparr>, requestMut = False,
      shutSig = \<lparr>raised = False\<rparr>, requests = [7]\<rparr>"
  have free: "\<not> writer (cacheMut ?s) \<and> readers (cacheMut ?s) = 0" by simp
  note c = Close_clears_or_reports [of ?s "Foreign ''context deadline exceeded''", THEN mp, OF free]
  have 1: "Close None ?s = (Inr (), ?s\<lparr>schemas := [], shutSig := CloseNow (shutSig ?s)\<rparr>)"
    using c by blast
  have 2: "Close (Some (Foreign ''context deadline exceeded'')) ?s =
      (Inl (Err (Foreign ''context deadline exceeded'')), ?s\<lparr>shutSig := CloseNow (shutSig ?s)\<rparr>)"
    using c by blast
  have "fst (Close None (snd (Close None ?s))) = (case None of None \<Rightarrow> Inr () | Some e2 \<Rightarrow> Inl (Err e2))"
    using c by blast
  then have 3: "fst (Close None (snd (Close None ?s))) = Inr ()" by simp
  show ?thesis
    unfolding 3 unfolding 1 2 by (simp add: CloseNow_def)
qed

section \<open>Claims about Process\<close>

text \<open>
  C7. For a message whose first byte is not zero \<open>Process\<close> fails with the version error
  of \<open>extractID\<close>, and more generally every failure of \<open>extractID\<close> is handed on as it
  is. In both cases the message and the whole state of the decoder are unchanged,
  whatever the registry is: in particular the request log has not grown, so the registry
  client was not called.
\<close>

theorem Process_rejects_before_resolution:
  "AsBytes msg = Inr b \<longrightarrow>
     (slice_len b \<noteq> 0 \<and> elems b ! 0 \<noteq> 0 \<longrightarrow>
        Process reg now msg s = (Inl (Err (VersionNotSupported (elems b ! 0))), msg, s) \<and>
        requests (snd (snd (Process reg now msg s))) = requests s) \<and>
     (\<forall>f. extractID b = Inl f \<longrightarrow>
        Process reg now msg s = (Inl f, msg, s) \<and>
        requests (snd (snd (Process reg now msg s))) = requests s)"
  by (auto simp: Process_extract_fails extractID_version)

theorem Process_rejects_before_resolution_witness:
  "AsBytes \<lparr>rawBytes = Some \<lparr>elems = [1, 0, 0, 0, 7, 42], spare = []\<rparr>,
            structured = (None :: nat option)\<rparr>
     = Inr \<lparr>elems = [1, 0, 0, 0, 7, 42], spare = []\<rparr> \<and>
   (\<forall>reg now.
     Process reg now
       \<lparr>rawBytes = Some \<lparr>elems = [1, 0, 0, 0, 7, 42], spare = []\<rparr>, structured = None\<rparr>
       \<lparr>schemas = [], cacheMut = \<lparr>readers = 0, writer = False\<rparr>, requestMut = False,
        shutSig = \<lparr>raised = False\<rparr>, requests = []\<rparr>
     = (Inl (Err (VersionNotSupported 1)),
        \<lparr>rawBytes = Some \<lparr>elems = [1, 0, 0, 0, 7, 42], spare = []\<rparr>,
         structured = (None :: nat option)\<rparr>,
        \<lparr>schemas = [], cacheMut = \<lparr>readers = 0, writer = False\<rparr>, requestMut = False,
         shutSig = \<lparr>raised = False\<rparr>, requests = []\<rparr>))"
proof -
  let ?b = "\<lparr>elems = [1, 0, 0, 0, 7, 42], spare = []\<rparr>"
  let ?m = "\<lparr>rawBytes = Some ?b, structured = None\<rparr> :: nat message"
  let ?s = "\<lparr>schemas = [], cacheMut = \<lparr>readers = 0, writer = False\<rparr>, requestMut = False,
        shutSig = \<lparr>raised = False\<rparr>, requests = []\<rparr> :: nat schemaRegistryDecoder"
  have a: "AsBytes ?m = Inr ?b" by (simp add: AsBytes_def)
  have v: "slice_len ?b \<noteq> 0 \<and> elems ?b ! 0 \<noteq> 0" by (simp add: slice_len_def)
  have "Process reg now ?m ?s = (Inl (Err (VersionNotSupported (elems ?b ! 0))), ?m, ?s)"
    for reg now
    using Process_rejects_before_resolution [of ?m ?b reg now ?s] a v by blast
  then have "\<forall>reg now. Process reg now ?m ?s = (Inl (Err (VersionNotSupported 1)), ?m, ?s)"
    by simp
  with a show ?thesis by (rule conjI)
qed

text \<open>
  C10. \<open>Process\<close> writes to the message only after \<open>extractID\<close> and \<open>getDecoder\<close> have
  succeeded: when either fails, \<open>Process\<close> returns that failure and the message is the
  one it was given. When the decoder fails, it has run on the message whose bytes had
  been replaced by the remainder, which differs from the original bytes; the message
  is returned as the decoder left it, and holds the remainder if the decoder did not
  write the bytes itself.
\<close>

theorem Process_mutation_order:
  "AsBytes msg = Inr b \<longrightarrow>
     (\<forall>f. extractID b = Inl f \<longrightarrow> Process reg now msg s = (Inl f, msg, s)) \<and>
     (\<forall>ident remaining f s1.
        extractID b = Inr (ident, remaining) \<and> getDecoder reg now ident s = (Inl f, s1) \<longrightarrow>
          Process reg now msg s = (Inl f, msg, s1)) \<and>
     (\<forall>ident remaining dec s1 msg1 e.
        extractID b = Inr (ident, remaining) \<and> getDecoder reg now ident s = (Inr dec, s1) \<and>
        dec (SetBytes msg remaining) = (msg1, Some e) \<longrightarrow>
          Process reg now msg s = (Inl (Err e), msg1, s1) \<and>
          AsBytes (SetBytes msg remaining) = Inr remaining \<and> remaining \<noteq> b \<and>
          (rawBytes msg1 = rawBytes (SetBytes msg remaining) \<longrightarrow> AsBytes msg1 = Inr remaining))"
  by (auto simp: Process_extract_fails Process_getDecoder_fails Process_decoder_fails
      AsBytes_SetBytes extractID_remaining_differs) (simp add: AsBytes_def SetBytes_def)

theorem Process_mutation_order_witness:
  "Process
     \<lparr>GetSchemaByID = (\<lambda>i. Inl (Foreign ''registry unavailable'')),
      getProtobufDecoder = (\<lambda>p. Inl (Foreign ''unused'')),
      getAvroDecoder = (\<lambda>p. Inl (Foreign ''unused''))\<rparr>
     3000000000
     \<lparr>rawBytes = Some \<lparr>elems = [0, 0, 0, 0, 7, 42], spare = []\<rparr>, structured = None\<rparr>
     \<lparr>schemas = [(7, \<lparr>lastUsedUnixSeconds = 1,
                         decoder = (\<lambda>m. (m, Some (Foreign ''payload does not match'')))\<rparr>)],
      cacheMut = \<lparr>readers = 0, writer = False\<rparr>, requestMut = False,
      shutSig = \<lparr>raised = False\<rparr>, requests = []\<rparr>
   = (Inl (Err (Foreign ''payload does not match'')),
      \<lparr>rawBytes = Some \<lparr>elems = [42], spare = []\<rparr>, structured = (None :: nat option)\<rparr>,
      \<lparr>schemas = [(7, \<lparr>lastUsedUnixSeconds = 3,
                          decoder = (\<lambda>m. (m, Some (Foreign ''payload does not match'')))\<rparr>)],
       cacheMut = \<lparr>readers = 0, writer = False\<rparr>, requestMut = False,
       shutSig = \<lparr>raised = False\<rparr>, requests = []\<rparr>) \<and>
   Process
     \<lparr>GetSchemaByID = (\<lambda>i. Inl (Foreign ''registry unavailable'')),
      getProtobufDecoder = (\<lambda>p. Inl (Foreign ''unused'')),
      getAvroDecoder = (\<lambda>p. Inl (Foreign ''unused''))\<rparr>
     3000000000
     \<lparr>rawBytes = Some \<lparr>elems = [0, 0, 0, 0, 7, 42], spare = []\<rparr>, structured = None\<rparr>
     \<lparr>schemas = [], cacheMut = \<lparr>readers = 0, writer = False\<rparr>, requestMut = False,
      shutSig = \<lparr>raised = False\<rparr>, requests = []\<rparr>
   = (Inl (Err (Foreign ''registry unavailable'')),
      \<lparr>rawBytes = Some \<lparr>elems = [0, 0, 0, 0, 7, 42], spare = []\<rparr>,
       structured = (None :: nat option)\<rparr>,
      \<lparr>schemas = [], cacheMut = \<lparr>readers = 0, writer = False\<rparr>, requestMut = False,
       shutSig = \<lparr>raised = False\<rparr>, requests = [7]\<rparr>)"
proof -
  let ?b = "\<lparr>elems = [0, 0, 0, 0, 7, 42], spare = []\<rparr>"
  let ?r = "\<lparr>elems = [42], spare = []\<rparr>"
  let ?m = "\<lparr>rawBytes = Some ?b, structured = None\<rparr> :: nat message"
  let ?reg = "\<lparr>GetSchemaByID = (\<lambda>i. Inl (Foreign ''registry unavailable'')),
      getProtobufDecoder = (\<lambda>p. Inl (Foreign ''unused'')),
      getAvroDecoder = (\<lambda>p. Inl (Foreign ''unused''))\<rparr> :: nat registry"
  let ?dec = "(\<lambda>m. (m, Some (Foreign ''payload does not match''))) :: nat schemaDecoder"
  let ?hit = "\<lparr>schemas = [(7, \<lparr>lastUsedUnixSeconds = 1, decoder = ?dec\<rparr>)],
      cacheMut = \<lparr>readers = 0, writer = False\<rparr>, requestMut = False,
      shutSig = \<lparr>raised = False\<rparr>, requests = []\<rparr>"
  let ?hit' = "\<lparr>schemas = [(7, \<lparr>lastUsedUnixSeconds = 3, decoder = ?dec\<rparr>)],
      cacheMut = \<lparr>readers = 0, writer = False\<rparr>, requestMut = False,
      shutSig = \<lparr>raised = False\<rparr>, requests = []\<rparr>"
  let ?miss = "\<lparr>schemas = [], cacheMut = \<lparr>readers = 0, writer = False\<rparr>, requestMut = False,
      shutSig = \<lparr>raised = False\<rparr>, requests = []\<rparr> :: nat schemaRegistryDecoder"
  let ?miss' = "\<lparr>schemas = [], cacheMut = \<lparr>readers = 0, writer = False\<rparr>, requestMut = False,
      shutSig = \<lparr>raised = False\<rparr>, requests = [7]\<rparr> :: nat schemaRegistryDecoder"
  have a: "AsBytes ?m = Inr ?b" by (simp add: AsBytes_def)
  have x: "extractID ?b = Inr (7, ?r)" by (rule extractID_example)
  have g1: "getDecoder ?reg 3000000000 7 ?hit = (Inr ?dec, ?hit')"
    by (simp add: getDecoder_hit refresh_def Unix_def Second_def)
  have d1: "?dec (SetBytes ?m ?r) = (\<lparr>rawBytes = Some ?r, structured = None\<rparr>,
               Some (Foreign ''payload does not match''))"
    by (simp add: SetBytes_def)
  have g2: "getDecoder ?reg 3000000000 7 ?miss = (Inl (Err (Foreign ''registry unavailable'')), ?miss')"
    by (simp add: getDecoder_miss quiescent_def)
  have 1: "Process ?reg 3000000000 ?m ?hit =
      (Inl (Err (Foreign ''payload does not match'')),
       \<lparr>rawBytes = Some ?r, structured = None\<rparr>, ?hit')"
    using Process_mutation_order [of ?m ?b ?reg 3000000000 ?hit] a x g1 d1 by blast
  have 2: "Process ?reg 3000000000 ?m ?miss =
      (Inl (Err (Foreign ''registry unavailable'')), ?m, ?miss')"
    using Process_mutation_order [of ?m ?b ?reg 3000000000 ?miss] a x g2 by blast
  from 1 2 show ?thesis by (rule conjI)
qed

section \<open>Facts about concurrent callers\<close>

lemma map_of_refresh:
  "map_of (schemas (refresh i now s)) k =
     map_option (\<lambda>c. if k = i then c\<lparr>lastUsedUnixSeconds := Unix now\<rparr> else c)
       (map_of (schemas s) k)"
proof -
  have "map_of (map (\<lambda>(k, c). if k = i then (k, c\<lparr>lastUsedUnixSeconds := Unix now\<rparr>)
                                 else (k, c)) al) k =
     map_option (\<lambda>c. if k = i then c\<lparr>lastUsedUnixSeconds := Unix now\<rparr> else c) (map_of al k)"
    for al :: "(go_int \<times> 'a cachedSchemaDecoder) list"
    by (induction al) auto
  then show ?thesis by (simp add: refresh_def)
qed

lemma refresh_fields:
  "cacheMut (refresh i now s) = cacheMut s" "requestMut (refresh i now s) = requestMut s"
  "requests (refresh i now s) = requests s"
  by (simp_all add: refresh_def)

text \<open>What one step of a caller does, with the cache lock free.\<close>

lemma advance_free:
  assumes "\<not> writer (cacheMut s)" "readers (cacheMut s) = 0"
  shows "advance reg now ident pc s =
    (case pc of
       Start \<Rightarrow> Some (case map_of (schemas s) ident of Some c \<Rightarrow> Hit1 c | None \<Rightarrow> WaitGate, s)
     | Hit1 c \<Rightarrow> Some (Done (Inr (decoder c)), refresh ident now s)
     | WaitGate \<Rightarrow> if requestMut s then None else Some (Recheck, s\<lparr>requestMut := True\<rparr>)
     | Recheck \<Rightarrow> Some (case map_of (schemas s) ident of Some c \<Rightarrow> Hit2 c | None \<Rightarrow> Fetch, s)
     | Hit2 c \<Rightarrow> Some (Release (Inr (decoder c)), refresh ident now s)
     | Fetch \<Rightarrow> Some (case GetSchemaByID reg ident of Inl e \<Rightarrow> Release (Inl (Err e))
                       | Inr q \<Rightarrow> Build q, s\<lparr>requests := requests s @ [ident]\<rparr>)
     | Build q \<Rightarrow> Some (case build reg q of Inl e \<Rightarrow> Release (Inl (Err e)) | Inr d \<Rightarrow> Insert d, s)
     | Insert d \<Rightarrow> Some (Release (Inr d),
          s\<lparr>schemas := AList.update ident \<lparr>lastUsedUnixSeconds = Unix now, decoder = d\<rparr> (schemas s)\<rparr>)
     | Release r \<Rightarrow> Some (Done r, s\<lparr>requestMut := False\<rparr>)
     | Done r \<Rightarrow> None)"
  using assms
  by (cases pc)
     (simp_all add: lookup_eq insert_decoder_eq fetch_def MLock_def MUnlock_def
        split: option.splits sum.splits)


lemma gate_unique_same:
  assumes "gate_unique cs" "i < length cs" "holds_gate pc' = holds_gate (snd (cs ! i))"
  shows "gate_unique (cs[i := (x, pc')])"
  using assms unfolding gate_unique_def
  by (simp add: nth_list_update) metis

lemma gate_held_same:
  assumes "i < length cs" "holds_gate pc' = holds_gate (snd (cs ! i))"
  shows "gate_held (cs[i := (x, pc')]) = gate_held cs"
  using assms unfolding gate_held_def
  by (simp add: nth_list_update) metis

lemma gate_unique_acquire:
  assumes "\<not> gate_held cs" "i < length cs"
  shows "gate_unique (cs[i := (x, pc')])"
  using assms unfolding gate_unique_def gate_held_def
  by (simp add: nth_list_update)

lemma gate_held_acquire:
  assumes "i < length cs" "holds_gate pc'"
  shows "gate_held (cs[i := (x, pc')])"
  using assms unfolding gate_held_def
  by (auto simp: nth_list_update intro!: exI [of _ i])

lemma gate_release:
  assumes "gate_unique cs" "i < length cs" "holds_gate (snd (cs ! i))" "\<not> holds_gate pc'"
  shows "\<not> gate_held (cs[i := (x, pc')])" and "gate_unique (cs[i := (x, pc')])"
  using assms unfolding gate_unique_def gate_held_def
  by (simp_all add: nth_list_update) metis+

lemma in_flight_same:
  assumes "i < length cs" "x = fst (cs ! i)" "past_fetch pc' = past_fetch (snd (cs ! i))"
  shows "in_flight ident (cs[i := (x, pc')]) = in_flight ident cs"
  using assms unfolding in_flight_def
  by (simp add: nth_list_update) metis

lemma past_fetch_holds: "past_fetch pc \<Longrightarrow> holds_gate pc"
  by (cases pc) simp_all

lemma in_flight_holder:
  assumes "gate_unique cs" "i < length cs" "holds_gate (snd (cs ! i))"
  shows "in_flight ident (cs[i := (x, pc')]) = (x = ident \<and> past_fetch pc')"
    and "in_flight ident cs = (fst (cs ! i) = ident \<and> past_fetch (snd (cs ! i)))"
proof -
  have only: "j = i" if "j < length cs" "past_fetch (snd (cs ! j))" for j
    using assms that past_fetch_holds unfolding gate_unique_def by blast
  show "in_flight ident (cs[i := (x, pc')]) = (x = ident \<and> past_fetch pc')"
    using assms(2) only unfolding in_flight_def
    by (auto simp: nth_list_update split: if_splits)
  show "in_flight ident cs = (fst (cs ! i) = ident \<and> past_fetch (snd (cs ! i)))"
    using assms(2) only unfolding in_flight_def by auto
qed

lemma callers_ok_same:
  assumes "callers_ok ident p dec cached cs" "i < length cs"
    "x = ident \<longrightarrow> local_ok p dec cached pc'"
  shows "callers_ok ident p dec cached (cs[i := (x, pc')])"
  using assms unfolding callers_ok_def
  by (simp add: nth_list_update)

lemma local_ok_cached:
  "\<not> holds_gate pc \<Longrightarrow> local_ok p dec False pc \<Longrightarrow> local_ok p dec True pc"
  by (cases pc) simp_all

lemma callers_ok_insert:
  assumes "callers_ok ident p dec False cs" "gate_unique cs" "i < length cs"
    "holds_gate (snd (cs ! i))" "x = ident \<longrightarrow> local_ok p dec True pc'"
  shows "callers_ok ident p dec True (cs[i := (x, pc')])"
proof -
  have "local_ok p dec True (snd (cs ! j))"
    if "j < length cs" "j \<noteq> i" "fst (cs ! j) = ident" for j
  proof -
    have "\<not> holds_gate (snd (cs ! j))"
      using assms(2,3,4) that(1,2) unfolding gate_unique_def by blast
    moreover have "local_ok p dec False (snd (cs ! j))"
      using assms(1) that(1,3) unfolding callers_ok_def by blast
    ultimately show ?thesis by (rule local_ok_cached)
  qed
  then show ?thesis
    using assms(3,5) unfolding callers_ok_def by (simp add: nth_list_update)
qed

lemma exec_preserves:
  assumes inv: "sf_inv ident p dec c0 (s, cs)"
    and reg: "GetSchemaByID reg ident = Inr p" "build reg p = Inr dec"
    and ex: "exec reg (i, now) (s, cs) = Some (s', cs')"
  shows "sf_inv ident p dec c0 (s', cs')"
proof -
  let ?cached = "map_of (schemas s) ident \<noteq> None"
  from inv have free: "\<not> writer (cacheMut s)" "readers (cacheMut s) = 0"
    and uniq: "gate_unique cs"
    and gate: "requestMut s \<longleftrightarrow> gate_held cs"
    and decd: "\<And>c. map_of (schemas s) ident = Some c \<Longrightarrow> decoder c = dec"
    and cnt: "count_list (requests s) ident =
          c0 + (if ?cached \<or> in_flight ident cs then 1 else 0)"
    and ok: "callers_ok ident p dec ?cached cs"
    by (simp_all add: sf_inv_def)
  define x where "x = fst (cs ! i)"
  define pc where "pc = snd (cs ! i)"
  from ex have i: "i < length cs"
    by (simp add: exec_def split: if_splits)
  from ex obtain pc' where adv: "advance reg now x pc s = Some (pc', s')"
    and cs': "cs' = cs[i := (x, pc')]"
    using i by (auto simp: exec_def x_def pc_def split: option.splits)
  note adv' = adv [unfolded advance_free [OF free]]
  have ok_i: "x = ident \<Longrightarrow> local_ok p dec ?cached pc"
    using ok i unfolding callers_ok_def x_def pc_def by blast
  have pc_i: "snd (cs ! i) = pc" "fst (cs ! i) = x" by (simp_all add: pc_def x_def)
  show ?thesis
  proof (cases pc)
    case Start
    with adv' have s': "s' = s"
      and pc': "pc' = (case map_of (schemas s) x of Some c \<Rightarrow> Hit1 c | None \<Rightarrow> WaitGate)"
      by auto
    have hg: "holds_gate pc' = holds_gate (snd (cs ! i))"
      and pf: "past_fetch pc' = past_fetch (snd (cs ! i))"
      by (simp_all add: pc' pc_i Start split: option.splits)
    have lo: "x = ident \<longrightarrow> local_ok p dec ?cached pc'"
      using decd by (auto simp: pc' split: option.splits)
    show ?thesis
      unfolding sf_inv_def cs' s'
      using free uniq gate decd cnt ok i hg pf lo
      by (simp add: gate_unique_same gate_held_same in_flight_same callers_ok_same pc_i)
  next
    case (Hit1 c)
    with adv' have s': "s' = refresh x now s" and pc': "pc' = Done (Inr (decoder c))"
      by auto
    have hg: "holds_gate pc' = holds_gate (snd (cs ! i))"
      and pf: "past_fetch pc' = past_fetch (snd (cs ! i))"
      by (simp_all add: pc' pc_i Hit1)
    have cached': "(map_of (schemas s') ident \<noteq> None) = ?cached"
      by (simp add: s' map_of_refresh)
    have decd': "decoder c' = dec" if "map_of (schemas s') ident = Some c'" for c'
      using that decd by (auto simp: s' map_of_refresh split: if_splits)
    have lo: "x = ident \<longrightarrow> local_ok p dec ?cached pc'"
      using ok_i by (simp add: pc' Hit1)
    show ?thesis
      unfolding sf_inv_def cs'
      using free uniq gate decd' cnt ok i hg pf lo cached'
      by (simp add: gate_unique_same gate_held_same in_flight_same callers_ok_same pc_i
          s' refresh_fields)
  next
    case WaitGate
    with adv' have nreq: "\<not> requestMut s" and s': "s' = s\<lparr>requestMut := True\<rparr>"
      and pc': "pc' = Recheck"
      by (auto split: if_splits)
    have nh: "\<not> gate_held cs" using gate nreq by simp
    have pf: "past_fetch pc' = past_fetch (snd (cs ! i))"
      by (simp add: pc' pc_i WaitGate)
    have lo: "x = ident \<longrightarrow> local_ok p dec ?cached pc'"
      by (simp add: pc')
    have gh: "gate_held (cs[i := (x, pc')])"
      using i by (rule gate_held_acquire) (simp add: pc')
    show ?thesis
      unfolding sf_inv_def cs' s'
      using free decd cnt ok i pf lo gh gate_unique_acquire [OF nh i]
      by (simp add: in_flight_same callers_ok_same pc_i)
  next
    case Recheck
    with adv' have s': "s' = s"
      and pc': "pc' = (case map_of (schemas s) x of Some c \<Rightarrow> Hit2 c | None \<Rightarrow> Fetch)"
      by auto
    have hg: "holds_gate pc' = holds_gate (snd (cs ! i))"
      and pf: "past_fetch pc' = past_fetch (snd (cs ! i))"
      by (simp_all add: pc' pc_i Recheck split: option.splits)
    have lo: "x = ident \<longrightarrow> local_ok p dec ?cached pc'"
      using decd by (auto simp: pc' split: option.splits)
    show ?thesis
      unfolding sf_inv_def cs' s'
      using free uniq gate decd cnt ok i hg pf lo
      by (simp add: gate_unique_same gate_held_same in_flight_same callers_ok_same pc_i)
  next
    case (Hit2 c)
    with adv' have s': "s' = refresh x now s" and pc': "pc' = Release (Inr (decoder c))"
      by auto
    have hg: "holds_gate pc' = holds_gate (snd (cs ! i))"
      and pf: "past_fetch pc' = past_fetch (snd (cs ! i))"
      by (simp_all add: pc' pc_i Hit2)
    have cached': "(map_of (schemas s') ident \<noteq> None) = ?cached"
      by (simp add: s' map_of_refresh)
    have decd': "decoder c' = dec" if "map_of (schemas s') ident = Some c'" for c'
      using that decd by (auto simp: s' map_of_refresh split: if_splits)
    have lo: "x = ident \<longrightarrow> local_ok p dec ?cached pc'"
      using ok_i by (simp add: pc' Hit2)
    show ?thesis
      unfolding sf_inv_def cs'
      using free uniq gate decd' cnt ok i hg pf lo cached'
      by (simp add: gate_unique_same gate_held_same in_flight_same callers_ok_same pc_i
          s' refresh_fields)
  next
    case Fetch
    with adv' have s': "s' = s\<lparr>requests := requests s @ [x]\<rparr>"
      and pc': "pc' = (case GetSchemaByID reg x of Inl e \<Rightarrow> Release (Inl (Err e))
                       | Inr q \<Rightarrow> Build q)"
      by auto
    have holder: "holds_gate (snd (cs ! i))" by (simp add: pc_i Fetch)
    have hg: "holds_gate pc' = holds_gate (snd (cs ! i))"
      by (simp add: pc' pc_i Fetch split: sum.splits)
    have fl: "in_flight ident cs = False"
      using in_flight_holder(2) [OF uniq i holder] by (simp add: pc_i Fetch)
    have fl': "in_flight ident (cs[i := (x, pc')]) = (x = ident \<and> past_fetch pc')"
      by (rule in_flight_holder(1) [OF uniq i holder])
    show ?thesis
    proof (cases "x = ident")
      case True
      then have pcb: "pc' = Build p" using reg by (simp add: pc')
      have nc: "\<not> ?cached" using ok_i True by (simp add: Fetch)
      have lo: "x = ident \<longrightarrow> local_ok p dec ?cached pc'" using nc by (simp add: pcb)
      show ?thesis
        unfolding sf_inv_def cs' s'
        using free uniq gate decd cnt ok i hg lo fl fl' nc True
        by (simp add: gate_unique_same gate_held_same callers_ok_same pcb)
    next
      case False
      show ?thesis
        unfolding sf_inv_def cs' s'
        using free uniq gate decd cnt ok i hg fl fl' False
        by (simp add: gate_unique_same gate_held_same callers_ok_same)
    qed
  next
    case (Build q)
    with adv' have s': "s' = s"
      and pc': "pc' = (case build reg q of Inl e \<Rightarrow> Release (Inl (Err e)) | Inr d \<Rightarrow> Insert d)"
      by auto
    have holder: "holds_gate (snd (cs ! i))" by (simp add: pc_i Build)
    have hg: "holds_gate pc' = holds_gate (snd (cs ! i))"
      by (simp add: pc' pc_i Build split: sum.splits)
    have fl: "in_flight ident cs = (x = ident)"
      using in_flight_holder(2) [OF uniq i holder] by (simp add: pc_i Build)
    have fl': "in_flight ident (cs[i := (x, pc')]) = (x = ident \<and> past_fetch pc')"
      by (rule in_flight_holder(1) [OF uniq i holder])
    show ?thesis
    proof (cases "x = ident")
      case True
      then have q: "q = p" and nc: "\<not> ?cached" using ok_i by (simp_all add: Build)
      have pci: "pc' = Insert dec" using reg by (simp add: pc' q)
      have lo: "x = ident \<longrightarrow> local_ok p dec ?cached pc'" using nc by (simp add: pci)
      show ?thesis
        unfolding sf_inv_def cs' s'
        using free uniq gate decd cnt ok i hg lo fl fl' nc True
        by (simp add: gate_unique_same gate_held_same callers_ok_same pci)
    next
      case False
      show ?thesis
        unfolding sf_inv_def cs' s'
        using free uniq gate decd cnt ok i hg fl fl' False
        by (simp add: gate_unique_same gate_held_same callers_ok_same)
    qed
  next
    case (Insert d)
    with adv' have s': "s' = s\<lparr>schemas := AList.update x
          \<lparr>lastUsedUnixSeconds = Unix now, decoder = d\<rparr> (schemas s)\<rparr>"
      and pc': "pc' = Release (Inr d)"
      by auto
    have holder: "holds_gate (snd (cs ! i))" by (simp add: pc_i Insert)
    have hg: "holds_gate pc' = holds_gate (snd (cs ! i))"
      by (simp add: pc' pc_i Insert)
    have fl: "in_flight ident cs = (x = ident)"
      using in_flight_holder(2) [OF uniq i holder] by (simp add: pc_i Insert)
    have fl': "in_flight ident (cs[i := (x, pc')]) = False"
      using in_flight_holder(1) [OF uniq i holder, of ident x pc'] by (simp add: pc')
    show ?thesis
    proof (cases "x = ident")
      case True
      then have d: "d = dec" and nc: "\<not> ?cached" using ok_i by (simp_all add: Insert)
      have ok': "callers_ok ident p dec True (cs[i := (x, pc')])"
      proof (rule callers_ok_insert [OF _ uniq i holder])
        show "callers_ok ident p dec False cs" using ok nc by simp
        show "x = ident \<longrightarrow> local_ok p dec True pc'" by (simp add: pc' d)
      qed
      show ?thesis
        unfolding sf_inv_def cs' s'
        using free uniq gate cnt i hg fl fl' nc True ok' d
        by (simp add: gate_unique_same gate_held_same update_conv')
    next
      case False
      then have same: "map_of (schemas s') ident = map_of (schemas s) ident"
        by (simp add: s' update_conv')
      show ?thesis
        unfolding sf_inv_def cs'
        using free uniq gate decd cnt ok i hg fl fl' False same
        by (simp add: gate_unique_same gate_held_same callers_ok_same s')
    qed
  next
    case (Release r)
    with adv' have s': "s' = s\<lparr>requestMut := False\<rparr>" and pc': "pc' = Done r"
      by auto
    have holder: "holds_gate (snd (cs ! i))" by (simp add: pc_i Release)
    have nh: "\<not> holds_gate pc'" by (simp add: pc')
    have pf: "past_fetch pc' = past_fetch (snd (cs ! i))"
      by (simp add: pc' pc_i Release)
    have lo: "x = ident \<longrightarrow> local_ok p dec ?cached pc'"
      using ok_i by (simp add: pc' Release)
    show ?thesis
      unfolding sf_inv_def cs' s'
      using free decd cnt ok i pf lo gate_release [OF uniq i holder nh]
      by (simp add: in_flight_same callers_ok_same pc_i)
  next
    case (Done r)
    with adv' show ?thesis by simp
  qed
qed

lemma advance_rank:
  assumes "advance reg now x pc s = Some (pc', s')"
  shows "rank pc' < rank pc"
  using assms
  by (cases pc) (auto split: prod.splits sum.splits option.splits)

lemma sum_list_update_less:
  fixes f :: "'a \<Rightarrow> nat"
  assumes "i < length xs" "f y < f (xs ! i)"
  shows "sum_list (map f (xs[i := y])) < sum_list (map f xs)"
  using assms
proof (induction xs arbitrary: i)
  case Nil
  then show ?case by simp
next
  case (Cons a xs)
  then show ?case by (cases i) auto
qed

lemma exec_weight:
  assumes "exec reg a cfg = Some cfg'"
  shows "weight cfg' < weight cfg"
proof -
  obtain i now where a: "a = (i, now)" by (cases a)
  obtain s cs where cfg: "cfg = (s, cs)" by (cases cfg)
  from assms have i: "i < length cs"
    by (simp add: exec_def a cfg split: if_splits)
  from assms obtain pc' s' where adv: "advance reg now (fst (cs ! i)) (snd (cs ! i)) s = Some (pc', s')"
    and cfg': "cfg' = (s', cs[i := (fst (cs ! i), pc')])"
    using i by (auto simp: exec_def a cfg split: option.splits)
  have "rank pc' < rank (snd (cs ! i))" using adv by (rule advance_rank)
  then have "sum_list (map (\<lambda>c. rank (snd c)) (cs[i := (fst (cs ! i), pc')]))
             < sum_list (map (\<lambda>c. rank (snd c)) cs)"
    using i by (intro sum_list_update_less) simp_all
  then show ?thesis by (simp add: weight_def cfg cfg')
qed

lemma run_weight:
  assumes "run reg sched cfg = Some cfg'"
  shows "length sched + weight cfg' \<le> weight cfg"
  using assms
proof (induction sched arbitrary: cfg)
  case Nil
  then show ?case by simp
next
  case (Cons a sched)
  then obtain cfg1 where e: "exec reg a cfg = Some cfg1" and r: "run reg sched cfg1 = Some cfg'"
    by (auto split: option.splits)
  from Cons.IH [OF r] exec_weight [OF e] show ?case by simp
qed

lemma weight_init: "weight (s, map (\<lambda>i. (i, Start)) idents) = 7 * length idents"
  by (induction idents) (simp_all add: weight_def)

lemma exec_callers:
  assumes "exec reg a (s, cs) = Some (s', cs')"
  shows "map fst cs' = map fst cs"
proof -
  obtain i now where a: "a = (i, now)" by (cases a)
  from assms show ?thesis
    by (auto simp: exec_def a map_update list_update_same_conv split: if_splits option.splits)
qed

lemma run_callers:
  assumes "run reg sched (s, cs) = Some (s', cs')"
  shows "map fst cs' = map fst cs"
  using assms
proof (induction sched arbitrary: s cs)
  case Nil
  then show ?case by simp
next
  case (Cons a sched)
  then obtain s1 cs1 where e: "exec reg a (s, cs) = Some (s1, cs1)"
    and r: "run reg sched (s1, cs1) = Some (s', cs')"
    by (auto split: option.splits)
  from Cons.IH [OF r] exec_callers [OF e] show ?case by simp
qed

lemma run_preserves:
  assumes "sf_inv ident p dec c0 cfg"
    and "GetSchemaByID reg ident = Inr p" "build reg p = Inr dec"
    and "run reg sched cfg = Some cfg'"
  shows "sf_inv ident p dec c0 cfg'"
  using assms(1,4)
proof (induction sched arbitrary: cfg)
  case Nil
  then show ?case by simp
next
  case (Cons a sched)
  obtain i now where a: "a = (i, now)" by (cases a)
  obtain s cs where cfg: "cfg = (s, cs)" by (cases cfg)
  from Cons.prems(2) obtain cfg1 where e: "exec reg (i, now) (s, cs) = Some cfg1"
    and r: "run reg sched cfg1 = Some cfg'"
    by (auto simp: a cfg split: option.splits)
  obtain s1 cs1 where cfg1: "cfg1 = (s1, cs1)" by (cases cfg1)
  have "sf_inv ident p dec c0 (s1, cs1)"
    using Cons.prems(1) assms(2,3) e unfolding cfg cfg1 by (rule exec_preserves)
  then show ?case using Cons.IH r cfg1 by simp
qed

lemma sf_inv_init:
  assumes "quiescent s0" "map_of (schemas s0) ident = None"
  shows "sf_inv ident p dec (count_list (requests s0) ident) (s0, map (\<lambda>i. (i, Start)) idents)"
  using assms
  by (simp add: sf_inv_def quiescent_def gate_unique_def gate_held_def in_flight_def
      callers_ok_def)

lemma progress:
  assumes inv: "sf_inv ident p dec c0 (s, cs)"
    and unfinished: "\<exists>c \<in> set cs. \<not> finished (snd c)"
  shows "\<exists>a cfg'. exec reg a (s, cs) = Some cfg'"
proof -
  from inv have free: "\<not> writer (cacheMut s)" "readers (cacheMut s) = 0"
    and gate: "requestMut s \<longleftrightarrow> gate_held cs"
    by (simp_all add: sf_inv_def)
  have enabled: "\<exists>cfg'. exec reg (i, 0) (s, cs) = Some cfg'"
    if "i < length cs" "\<not> finished (snd (cs ! i))"
       "snd (cs ! i) = WaitGate \<longrightarrow> \<not> requestMut s" for i
    using that
    by (cases "snd (cs ! i)")
       (auto simp: exec_def advance_free [OF free] split: option.splits sum.splits)
  show ?thesis
  proof (cases "gate_held cs")
    case True
    then obtain i where i: "i < length cs" "holds_gate (snd (cs ! i))"
      unfolding gate_held_def by blast
    then have "\<not> finished (snd (cs ! i))" "snd (cs ! i) \<noteq> WaitGate"
      by (cases "snd (cs ! i)"; simp)+
    with i(1) enabled show ?thesis by blast
  next
    case False
    then have "\<not> requestMut s" using gate by simp
    moreover from unfinished obtain i where "i < length cs" "\<not> finished (snd (cs ! i))"
      by (auto simp: in_set_conv_nth)
    ultimately show ?thesis using enabled by blast
  qed
qed

lemma run_example:
  "run \<lparr>GetSchemaByID = (\<lambda>i. Inr \<lparr>Type = ''AVRO'', Schema = ''int''\<rparr>),
        getProtobufDecoder = (\<lambda>p. Inl (Foreign ''unused'')),
        getAvroDecoder = (\<lambda>p. Inr (\<lambda>m. (m\<lparr>structured := Some 1\<rparr>, None)))\<rparr>
       [(0, 3000000000), (1, 3000000000), (0, 3000000000), (0, 3000000000),
        (0, 3000000000), (0, 3000000000), (0, 3000000000), (0, 3000000000),
        (1, 4000000000), (1, 4000000000), (1, 4000000000), (1, 4000000000)]
       (\<lparr>schemas = [], cacheMut = \<lparr>readers = 0, writer = False\<rparr>, requestMut = False,
         shutSig = \<lparr>raised = False\<rparr>, requests = []\<rparr>,
        map (\<lambda>i. (i, Start)) [7, 7])
   = Some (\<lparr>schemas = [(7, \<lparr>lastUsedUnixSeconds = 4,
                              decoder = (\<lambda>m. (m\<lparr>structured := Some (1::nat)\<rparr>, None))\<rparr>)],
            cacheMut = \<lparr>readers = 0, writer = False\<rparr>, requestMut = False,
            shutSig = \<lparr>raised = False\<rparr>, requests = [7]\<rparr>,
           [(7, Done (Inr (\<lambda>m. (m\<lparr>structured := Some 1\<rparr>, None)))),
            (7, Done (Inr (\<lambda>m. (m\<lparr>structured := Some 1\<rparr>, None))))])"
  by (simp add: exec_def lookup_def RLock_def RUnlock_def Lock_def Unlock_def MLock_def
      MUnlock_def fetch_def build_def insert_decoder_def refresh_def Unix_def Second_def)

lemma run_failing_registry:
  "run \<lparr>GetSchemaByID = (\<lambda>i. Inl (Foreign ''registry unavailable'')),
        getProtobufDecoder = (\<lambda>p. Inl (Foreign ''unused'')),
        getAvroDecoder = (\<lambda>p. Inl (Foreign ''unused''))\<rparr>
       [(0, 3000000000), (1, 3000000000), (0, 3000000000), (0, 3000000000),
        (0, 3000000000), (0, 3000000000),
        (1, 4000000000), (1, 4000000000), (1, 4000000000), (1, 4000000000)]
       (\<lparr>schemas = [], cacheMut = \<lparr>readers = 0, writer = False\<rparr>, requestMut = False,
         shutSig = \<lparr>raised = False\<rparr>, requests = []\<rparr>,
        map (\<lambda>i. (i, Start)) [7, 7])
   = Some (\<lparr>schemas = ([] :: (go_int \<times> nat cachedSchemaDecoder) list),
            cacheMut = \<lparr>readers = 0, writer = False\<rparr>, requestMut = False,
            shutSig = \<lparr>raised = False\<rparr>, requests = [7, 7]\<rparr>,
           [(7, Done (Inl (Err (Foreign ''registry unavailable'')))),
            (7, Done (Inl (Err (Foreign ''registry unavailable''))))])"
  by (simp add: exec_def lookup_def RLock_def RUnlock_def Lock_def Unlock_def MLock_def
      MUnlock_def fetch_def build_def insert_decoder_def refresh_def Unix_def Second_def)

text \<open>A caller that runs alone goes through its steps to the result of \<open>getDecoder\<close>.\<close>

lemma solo_run:
  assumes "quiescent s"
  shows "\<exists>k \<le> 7. run reg (replicate k (0, now)) (s, [(ident, Start)]) =
           Some (snd (getDecoder reg now ident s),
                 [(ident, Done (fst (getDecoder reg now ident s)))])"
proof -
  from assms have free: "\<not> writer (cacheMut s)" "readers (cacheMut s) = 0" "\<not> requestMut s"
    by (simp_all add: quiescent_def)
  show ?thesis
  proof (cases "map_of (schemas s) ident")
    case (Some c)
    have "run reg (replicate 2 (0, now)) (s, [(ident, Start)]) =
           Some (snd (getDecoder reg now ident s),
                 [(ident, Done (fst (getDecoder reg now ident s)))])"
      using free Some
      by (simp add: numeral_2_eq_2 exec_def lookup_eq getDecoder_hit refresh_fields)
    then show ?thesis by (intro exI [of _ 2]) simp
  next
    case None
    note g = getDecoder_miss [OF assms None, of reg now]
    show ?thesis
    proof (cases "GetSchemaByID reg ident")
      case (Inl e)
      have "run reg (replicate 5 (0, now)) (s, [(ident, Start)]) =
           Some (snd (getDecoder reg now ident s),
                 [(ident, Done (fst (getDecoder reg now ident s)))])"
        using free None Inl
        by (simp add: g eval_nat_numeral exec_def lookup_eq fetch_def MLock_def MUnlock_def)
      then show ?thesis by (intro exI [of _ 5]) simp
    next
      case (Inr q)
      show ?thesis
      proof (cases "build reg q")
        case (Inl e)
        have "run reg (replicate 6 (0, now)) (s, [(ident, Start)]) =
           Some (snd (getDecoder reg now ident s),
                 [(ident, Done (fst (getDecoder reg now ident s)))])"
          using free None Inr Inl
          by (simp add: g eval_nat_numeral exec_def lookup_eq fetch_def MLock_def MUnlock_def)
        then show ?thesis by (intro exI [of _ 6]) simp
      next
        case (Inr d)
        have "run reg (replicate 7 (0, now)) (s, [(ident, Start)]) =
           Some (snd (getDecoder reg now ident s),
                 [(ident, Done (fst (getDecoder reg now ident s)))])"
          using free None \<open>GetSchemaByID reg ident = Inr q\<close> Inr
          by (simp add: g eval_nat_numeral exec_def lookup_eq fetch_def MLock_def MUnlock_def
              insert_decoder_eq)
        then show ?thesis by (intro exI [of _ 7]) simp
      qed
    qed
  qed
qed

section \<open>Claims about concurrent resolution\<close>

text \<open>
  C8. Callers of \<open>getDecoder\<close> start together on a decoder whose locks are free, in any
  number and under any interleaving of their steps; \<open>ident\<close> is an identifier that the
  cache does not have and that the registry resolves to the decoder \<open>dec\<close>. Then in
  every configuration they reach: the registry has been asked for \<open>ident\<close> at most once,
  and exactly once when all callers have returned and one of them asked for \<open>ident\<close>;
  every caller for \<open>ident\<close> that has returned has received \<open>dec\<close>; at most one caller,
  of all identifiers, is between \<^verbatim>\<open>requestMut.Lock()\<close> and its release, where the request is
  made; some caller can move as long as one has not returned; and no interleaving is
  longer than seven steps for each caller.
\<close>

theorem single_flight:
  "quiescent s0 \<and> map_of (schemas s0) ident = None \<and>
   GetSchemaByID reg ident = Inr p \<and> build reg p = Inr dec \<and>
   run reg sched (s0, map (\<lambda>i. (i, Start)) idents) = Some (s, cs) \<longrightarrow>
     map fst cs = idents \<and>
     count_list (requests s) ident \<le> count_list (requests s0) ident + 1 \<and>
     ((\<forall>c \<in> set cs. finished (snd c)) \<and> ident \<in> set idents \<longrightarrow>
        count_list (requests s) ident = count_list (requests s0) ident + 1) \<and>
     (\<forall>r. (ident, Done r) \<in> set cs \<longrightarrow> r = Inr dec) \<and>
     (\<forall>i j. i < length cs \<and> j < length cs \<and>
        holds_gate (snd (cs ! i)) \<and> holds_gate (snd (cs ! j)) \<longrightarrow> i = j) \<and>
     ((\<exists>c \<in> set cs. \<not> finished (snd c)) \<longrightarrow> (\<exists>a cfg'. exec reg a (s, cs) = Some cfg')) \<and>
     length sched \<le> 7 * length idents"
proof (intro impI)
  assume a: "quiescent s0 \<and> map_of (schemas s0) ident = None \<and>
   GetSchemaByID reg ident = Inr p \<and> build reg p = Inr dec \<and>
   run reg sched (s0, map (\<lambda>i. (i, Start)) idents) = Some (s, cs)"
  let ?c0 = "count_list (requests s0) ident"
  let ?cached = "map_of (schemas s) ident \<noteq> None"
  from a have run: "run reg sched (s0, map (\<lambda>i. (i, Start)) idents) = Some (s, cs)" by simp
  have "sf_inv ident p dec ?c0 (s0, map (\<lambda>i. (i, Start)) idents)"
    using a by (simp add: sf_inv_init)
  then have inv: "sf_inv ident p dec ?c0 (s, cs)"
    using a by (auto intro: run_preserves)
  then have uniq: "gate_unique cs"
    and cnt: "count_list (requests s) ident = ?c0 + (if ?cached \<or> in_flight ident cs then 1 else 0)"
    and ok: "callers_ok ident p dec ?cached cs"
    by (simp_all add: sf_inv_def)
  have callers: "map fst cs = idents"
    using run_callers [OF run] by (simp add: comp_def)
  have at_most: "count_list (requests s) ident \<le> ?c0 + 1"
    using cnt by simp
  have local: "local_ok p dec ?cached pc" if "(ident, pc) \<in> set cs" for pc
  proof -
    from that obtain i where "i < length cs" "cs ! i = (ident, pc)"
      by (auto simp: in_set_conv_nth)
    then show ?thesis using ok unfolding callers_ok_def by force
  qed
  have same: "r = Inr dec" if "(ident, Done r) \<in> set cs" for r
    using local [OF that] by simp
  have exactly: "count_list (requests s) ident = ?c0 + 1"
    if "(\<forall>c \<in> set cs. finished (snd c)) \<and> ident \<in> set idents"
  proof -
    from that callers have "ident \<in> fst ` set cs" by (metis set_map)
    then obtain pc where m: "(ident, pc) \<in> set cs" by force
    with that have "finished pc" by force
    then obtain r where "pc = Done r" by (cases pc) simp_all
    with local [OF m] have ?cached by simp
    then show ?thesis using cnt by simp
  qed
  have prog: "\<exists>a cfg'. exec reg a (s, cs) = Some cfg'" if "\<exists>c \<in> set cs. \<not> finished (snd c)"
    using inv that by (rule progress)
  have bound: "length sched \<le> 7 * length idents"
    using run_weight [OF run] by (simp add: weight_init)
  show "map fst cs = idents \<and>
     count_list (requests s) ident \<le> count_list (requests s0) ident + 1 \<and>
     ((\<forall>c \<in> set cs. finished (snd c)) \<and> ident \<in> set idents \<longrightarrow>
        count_list (requests s) ident = count_list (requests s0) ident + 1) \<and>
     (\<forall>r. (ident, Done r) \<in> set cs \<longrightarrow> r = Inr dec) \<and>
     (\<forall>i j. i < length cs \<and> j < length cs \<and>
        holds_gate (snd (cs ! i)) \<and> holds_gate (snd (cs ! j)) \<longrightarrow> i = j) \<and>
     ((\<exists>c \<in> set cs. \<not> finished (snd c)) \<longrightarrow> (\<exists>a cfg'. exec reg a (s, cs) = Some cfg')) \<and>
     length sched \<le> 7 * length idents"
    using callers at_most exactly same prog bound uniq unfolding gate_unique_def by blast
qed

theorem single_flight_witness:
  "quiescent (\<lparr>schemas = [], cacheMut = \<lparr>readers = 0, writer = False\<rparr>, requestMut = False,
         shutSig = \<lparr>raised = False\<rparr>, requests = []\<rparr> :: nat schemaRegistryDecoder) \<and>
   run \<lparr>GetSchemaByID = (\<lambda>i. Inr \<lparr>Type = ''AVRO'', Schema = ''int''\<rparr>),
        getProtobufDecoder = (\<lambda>p. Inl (Foreign ''unused'')),
        getAvroDecoder = (\<lambda>p. Inr (\<lambda>m. (m\<lparr>structured := Some 1\<rparr>, None)))\<rparr>
       [(0, 3000000000), (1, 3000000000), (0, 3000000000), (0, 3000000000),
        (0, 3000000000), (0, 3000000000), (0, 3000000000), (0, 3000000000),
        (1, 4000000000), (1, 4000000000), (1, 4000000000), (1, 4000000000)]
       (\<lparr>schemas = [], cacheMut = \<lparr>readers = 0, writer = False\<rparr>, requestMut = False,
         shutSig = \<lparr>raised = False\<rparr>, requests = []\<rparr>,
        map (\<lambda>i. (i, Start)) [7, 7])
   = Some (\<lparr>schemas = [(7, \<lparr>lastUsedUnixSeconds = 4,
                              decoder = (\<lambda>m. (m\<lparr>structured := Some (1::nat)\<rparr>, None))\<rparr>)],
            cacheMut = \<lparr>readers = 0, writer = False\<rparr>, requestMut = False,
            shutSig = \<lparr>raised = False\<rparr>, requests = [7]\<rparr>,
           [(7, Done (Inr (\<lambda>m. (m\<lparr>structured := Some 1\<rparr>, None)))),
            (7, Done (Inr (\<lambda>m. (m\<lparr>structured := Some 1\<rparr>, None))))]) \<and>
   count_list [7 :: go_int] 7 = count_list [] (7 :: go_int) + 1 \<and>
   length [(0 :: nat, 3000000000 :: int), (1, 3000000000), (0, 3000000000), (0, 3000000000),
        (0, 3000000000), (0, 3000000000), (0, 3000000000), (0, 3000000000),
        (1, 4000000000), (1, 4000000000), (1, 4000000000), (1, 4000000000)]
     \<le> 7 * length [7 :: go_int, 7]"
proof -
  let ?reg = "\<lparr>GetSchemaByID = (\<lambda>i. Inr \<lparr>Type = ''AVRO'', Schema = ''int''\<rparr>),
        getProtobufDecoder = (\<lambda>p. Inl (Foreign ''unused'')),
        getAvroDecoder = (\<lambda>p. Inr (\<lambda>m. (m\<lparr>structured := Some 1\<rparr>, None)))\<rparr> :: nat registry"
  let ?dec = "(\<lambda>m. (m\<lparr>structured := Some 1\<rparr>, None)) :: nat schemaDecoder"
  let ?order = "[(0 :: nat, 3000000000 :: int), (1, 3000000000), (0, 3000000000), (0, 3000000000),
        (0, 3000000000), (0, 3000000000), (0, 3000000000), (0, 3000000000),
        (1, 4000000000), (1, 4000000000), (1, 4000000000), (1, 4000000000)]"
  let ?init = "\<lparr>schemas = [], cacheMut = \<lparr>readers = 0, writer = False\<rparr>, requestMut = False,
         shutSig = \<lparr>raised = False\<rparr>, requests = []\<rparr> :: nat schemaRegistryDecoder"
  let ?fin = "\<lparr>schemas = [(7, \<lparr>lastUsedUnixSeconds = 4, decoder = ?dec\<rparr>)],
            cacheMut = \<lparr>readers = 0, writer = False\<rparr>, requestMut = False,
            shutSig = \<lparr>raised = False\<rparr>, requests = [7]\<rparr>"
  let ?callers = "[(7, Done (Inr ?dec)), (7, Done (Inr ?dec))] :: (go_int \<times> nat pc) list"
  have q: "quiescent ?init" by (simp add: quiescent_def)
  have r: "run ?reg ?order (?init, map (\<lambda>i. (i, Start)) [7, 7]) = Some (?fin, ?callers)"
    by (rule run_example)
  have hyp: "quiescent ?init \<and> map_of (schemas ?init) 7 = None \<and>
     GetSchemaByID ?reg 7 = Inr \<lparr>Type = ''AVRO'', Schema = ''int''\<rparr> \<and>
     build ?reg \<lparr>Type = ''AVRO'', Schema = ''int''\<rparr> = Inr ?dec \<and>
     run ?reg ?order (?init, map (\<lambda>i. (i, Start)) [7, 7]) = Some (?fin, ?callers)"
    using q r by (simp add: build_def)
  note sf = single_flight [of ?init 7 ?reg "\<lparr>Type = ''AVRO'', Schema = ''int''\<rparr>" ?dec
      ?order "[7, 7]" ?fin ?callers, THEN mp, OF hyp]
  have fin: "(\<forall>c \<in> set ?callers. finished (snd c)) \<and> 7 \<in> set [7 :: go_int, 7]" by simp
  have "count_list (requests ?fin) 7 = count_list (requests ?init) 7 + 1"
    using sf fin by blast
  then have c: "count_list [7 :: go_int] 7 = count_list [] (7 :: go_int) + 1" by simp
  have l: "length ?order \<le> 7 * length [7 :: go_int, 7]" using sf by blast
  from q r c l show ?thesis by blast
qed

end
